theory Spec2Isabelle
  imports Main
begin

section \<open>Go strings: bytes, runes and the library calls of markdowntoword.go\<close>

text \<open>
  A Go \<^verbatim>\<open>string\<close> is a sequence of bytes, here a \<^typ>\<open>string\<close> (a list of 8-bit
  characters). A \<^verbatim>\<open>rune\<close> is a code point; the code only ever holds non-negative
  ones, so a rune is a natural number. The functions of this section model the calls
  into the packages \<^verbatim>\<open>strings\<close>, \<^verbatim>\<open>unicode\<close> and \<^verbatim>\<open>unicode/utf8\<close> that
  \<^verbatim>\<open>parseMarkdown\<close> and \<^verbatim>\<open>processValue\<close> make, at the level of bytes.
\<close>

type_synonym rune = nat

definition RuneError :: rune where
  "RuneError = 0xFFFD"

text \<open>
  \<^verbatim>\<open>utf8.DecodeRuneInString\<close>: the first rune of a string and its width in bytes. A byte
  that starts no valid encoding is \<^verbatim>\<open>(RuneError, 1)\<close>. The lead byte fixes the size and
  the range accepted for the second byte (which excludes over-long forms and surrogates).
\<close>

fun DecodeRuneInString :: "string \<Rightarrow> rune \<times> nat" where
  "DecodeRuneInString [] = (RuneError, 0)"
| "DecodeRuneInString (c0 # cs) =
    (let s0 = (of_char c0 :: nat) in
     if s0 < 0x80 then (s0, 1)
     else if s0 < 0xC2 \<or> 0xF4 < s0 then (RuneError, 1)
     else
       let sz = (if s0 < 0xE0 then 2 else if s0 < 0xF0 then 3 else 4 :: nat);
           lo = (if s0 = 0xE0 then 0xA0 else if s0 = 0xF0 then 0x90 else 0x80 :: nat);
           hi = (if s0 = 0xED then 0x9F else if s0 = 0xF4 then 0x8F else 0xBF :: nat)
       in
       if length (c0 # cs) < sz then (RuneError, 1)
       else
         let s1 = (of_char (cs ! 0) :: nat) in
         if s1 < lo \<or> hi < s1 then (RuneError, 1)
         else if sz \<le> 2 then ((s0 mod 32) * 64 + s1 mod 64, 2)
         else
           let s2 = (of_char (cs ! 1) :: nat) in
           if s2 < 0x80 \<or> 0xBF < s2 then (RuneError, 1)
           else if sz \<le> 3 then ((s0 mod 16) * 4096 + (s1 mod 64) * 64 + s2 mod 64, 3)
           else
             let s3 = (of_char (cs ! 2) :: nat) in
             if s3 < 0x80 \<or> 0xBF < s3 then (RuneError, 1)
             else ((s0 mod 8) * 262144 + (s1 mod 64) * 4096 + (s2 mod 64) * 64 + s3 mod 64, 4))"

text \<open>
  \<^verbatim>\<open>utf8.DecodeLastRuneInString\<close>: the last rune of a string and its width. It steps
  back at most three bytes to a byte that can start a rune (one that is not of the form
  \<^verbatim>\<open>10xxxxxx\<close>), decodes forward from there and accepts the result only when it ends
  exactly at the end of the string.
\<close>

definition RuneStart :: "char \<Rightarrow> bool" where
  "RuneStart b = ((of_char b :: nat) div 64 \<noteq> 2)"

definition DecodeLastRuneInString :: "string \<Rightarrow> rune \<times> nat" where
  "DecodeLastRuneInString s =
    (let n = length s in
     if n = 0 then (RuneError, 0)
     else if (of_char (s ! (n - 1)) :: nat) < 0x80 then (of_char (s ! (n - 1)), 1)
     else
       let start =
             (if 2 \<le> n \<and> RuneStart (s ! (n - 2)) then n - 2
              else if 3 \<le> n \<and> RuneStart (s ! (n - 3)) then n - 3
              else if 4 \<le> n \<and> RuneStart (s ! (n - 4)) then n - 4
              else n - 5)
       in case DecodeRuneInString (drop start s) of
            (r, wid) \<Rightarrow> if start + wid \<noteq> n then (RuneError, 1) else (r, wid))"

text \<open>
  \<^verbatim>\<open>utf8.AppendRune\<close> (behind \<^verbatim>\<open>Builder.WriteRune\<close>): the UTF-8 encoding of a rune; a
  surrogate or a value past \<^verbatim>\<open>U+10FFFF\<close> is written as the encoding of \<^verbatim>\<open>RuneError\<close>.
\<close>

definition EncodeRune :: "rune \<Rightarrow> string" where
  "EncodeRune r =
    (if r \<le> 0x7F then [char_of r]
     else if r \<le> 0x7FF then [char_of (0xC0 + r div 64), char_of (0x80 + r mod 64)]
     else if 0x10FFFF < r \<or> (0xD800 \<le> r \<and> r \<le> 0xDFFF) then [CHR 0xEF, CHR 0xBF, CHR 0xBD]
     else if r \<le> 0xFFFF then
       [char_of (0xE0 + r div 4096), char_of (0x80 + (r div 64) mod 64), char_of (0x80 + r mod 64)]
     else
       [char_of (0xF0 + r div 262144), char_of (0x80 + (r div 4096) mod 64),
        char_of (0x80 + (r div 64) mod 64), char_of (0x80 + r mod 64)])"

text \<open>
  The runes a \<^verbatim>\<open>for _, c := range s\<close> loop visits. Every step consumes the width
  that \<^const>\<open>DecodeRuneInString\<close> reports, which is at least one byte.
\<close>

fun runes :: "string \<Rightarrow> rune list" where
  "runes [] = []"
| "runes (c # cs) =
    (case DecodeRuneInString (c # cs) of (r, w) \<Rightarrow> r # runes (drop (w - 1) cs))"

text \<open>
  \<^verbatim>\<open>strings.Map\<close>: every rune of the string is replaced by what the mapping returns
  and written in UTF-8; a negative result (here \<^const>\<open>None\<close>) drops the rune.
\<close>

definition strings_Map :: "(rune \<Rightarrow> rune option) \<Rightarrow> string \<Rightarrow> string" where
  "strings_Map mapping s =
    concat (map (\<lambda>c. case mapping c of None \<Rightarrow> [] | Some r \<Rightarrow> EncodeRune r) (runes s))"

text \<open>
  \<^verbatim>\<open>unicode.ToLower\<close>: written out for ASCII as in the library; past ASCII the library
  looks the rune up in the Unicode case tables, which are the parameter \<open>tbl\<close> here.
  \<^verbatim>\<open>strings.ToLower\<close> maps it over the string (its fast path for ASCII-only strings
  computes the same bytes).
\<close>

definition unicode_ToLower :: "(rune \<Rightarrow> rune) \<Rightarrow> rune \<Rightarrow> rune" where
  "unicode_ToLower tbl r =
    (if r \<le> 0x7F then (if of_char CHR ''A'' \<le> r \<and> r \<le> of_char CHR ''Z'' then r + 32 else r)
     else tbl r)"

definition strings_ToLower :: "(rune \<Rightarrow> rune) \<Rightarrow> string \<Rightarrow> string" where
  "strings_ToLower tbl s = strings_Map (\<lambda>r. Some (unicode_ToLower tbl r)) s"

text \<open>\<^verbatim>\<open>unicode.IsSpace\<close>: the Latin-1 spaces and the White_Space code points past them.\<close>

definition unicode_IsSpace :: "rune \<Rightarrow> bool" where
  "unicode_IsSpace r =
    (if r \<le> 0xFF then r \<in> {0x09, 0x0A, 0x0B, 0x0C, 0x0D, 0x20, 0x85, 0xA0}
     else r = 0x1680 \<or> (0x2000 \<le> r \<and> r \<le> 0x200A) \<or> r = 0x2028 \<or> r = 0x2029
          \<or> r = 0x202F \<or> r = 0x205F \<or> r = 0x3000)"

definition asciiSpace :: "char \<Rightarrow> bool" where
  "asciiSpace c =
    (c = CHR 0x09 \<or> c = CHR 0x0A \<or> c = CHR 0x0B \<or> c = CHR 0x0C \<or> c = CHR 0x0D \<or> c = CHR '' '')"

text \<open>
  \<^verbatim>\<open>strings.TrimLeftFunc\<close> and \<^verbatim>\<open>strings.TrimRightFunc\<close> drop the leading (trailing)
  runes that satisfy the predicate; the first decodes forward, the second backward.
\<close>

fun TrimLeftFunc :: "(rune \<Rightarrow> bool) \<Rightarrow> string \<Rightarrow> string" where
  "TrimLeftFunc f [] = []"
| "TrimLeftFunc f (c # cs) =
    (case DecodeRuneInString (c # cs) of
       (r, w) \<Rightarrow> if f r then TrimLeftFunc f (drop (w - 1) cs) else c # cs)"

fun TrimRightRev :: "(rune \<Rightarrow> bool) \<Rightarrow> string \<Rightarrow> string" where
  "TrimRightRev f [] = []"
| "TrimRightRev f (c # cs) =
    (case DecodeLastRuneInString (rev (c # cs)) of
       (r, wid) \<Rightarrow> if f r then TrimRightRev f (drop (wid - 1) cs) else c # cs)"

definition TrimRightFunc :: "(rune \<Rightarrow> bool) \<Rightarrow> string \<Rightarrow> string" where
  "TrimRightFunc f s = rev (TrimRightRev f (rev s))"

definition TrimFunc :: "(rune \<Rightarrow> bool) \<Rightarrow> string \<Rightarrow> string" where
  "TrimFunc f s = TrimRightFunc f (TrimLeftFunc f s)"

text \<open>
  \<^verbatim>\<open>strings.TrimSpace\<close>: two loops over ASCII bytes, from the start and from the end;
  the first byte past ASCII sends the rest to the Unicode-aware functions above.
  \<open>trimStop\<close> is the second loop and works on the reversed string.
\<close>

fun trimStop :: "string \<Rightarrow> string" where
  "trimStop [] = []"
| "trimStop (c # cs) =
    (if (0x80 :: nat) \<le> of_char c then TrimRightRev unicode_IsSpace (c # cs)
     else if asciiSpace c then trimStop cs
     else c # cs)"

fun strings_TrimSpace :: "string \<Rightarrow> string" where
  "strings_TrimSpace [] = []"
| "strings_TrimSpace (c # cs) =
    (if (0x80 :: nat) \<le> of_char c then TrimFunc unicode_IsSpace (c # cs)
     else if asciiSpace c then strings_TrimSpace cs
     else rev (trimStop (rev (c # cs))))"

text \<open>\<^verbatim>\<open>strings.HasPrefix\<close>, \<^verbatim>\<open>strings.TrimPrefix\<close> and \<^verbatim>\<open>strings.Index\<close> compare bytes.\<close>

definition strings_HasPrefix :: "string \<Rightarrow> string \<Rightarrow> bool" where
  "strings_HasPrefix s p = (length p \<le> length s \<and> take (length p) s = p)"

definition strings_TrimPrefix :: "string \<Rightarrow> string \<Rightarrow> string" where
  "strings_TrimPrefix s p = (if strings_HasPrefix s p then drop (length p) s else s)"

fun strings_Index :: "string \<Rightarrow> string \<Rightarrow> nat option" where
  "strings_Index [] substr = (if substr = [] then Some 0 else None)"
| "strings_Index (c # cs) substr =
    (if strings_HasPrefix (c # cs) substr then Some 0
     else map_option Suc (strings_Index cs substr))"

text \<open>
  \<^verbatim>\<open>strings.Replace(s, old, new, n)\<close>: the first \<open>n\<close> non-overlapping instances of
  \<open>old\<close> are replaced, all of them when \<open>n < 0\<close>. A non-empty \<open>old\<close> has at most
  \<open>length s\<close> such instances, which bounds the loop \<open>replaceLoop\<close>. An empty
  \<open>old\<close> matches at the start of the string and after each rune (\<open>afterRunes\<close>).
\<close>

fun replaceLoop :: "nat \<Rightarrow> string \<Rightarrow> string \<Rightarrow> string \<Rightarrow> string" where
  "replaceLoop 0 s old new = s"
| "replaceLoop (Suc n) s old new =
    (case strings_Index s old of
       None \<Rightarrow> s
     | Some j \<Rightarrow> take j s @ new @ replaceLoop n (drop (j + length old) s) old new)"

fun afterRunes :: "nat \<Rightarrow> string \<Rightarrow> string \<Rightarrow> string" where
  "afterRunes 0 s new = s"
| "afterRunes (Suc n) s new =
    (case DecodeRuneInString s of
       (r, w) \<Rightarrow> take w s @ new @ afterRunes n (drop w s) new)"

definition strings_Replace :: "string \<Rightarrow> string \<Rightarrow> string \<Rightarrow> int \<Rightarrow> string" where
  "strings_Replace s old new n =
    (if old = new \<or> n = 0 then s
     else if old = [] then
       (let m = length (runes s) + 1;
            k = (if n < 0 \<or> int m < n then m else nat n)
        in new @ afterRunes (k - 1) s new)
     else replaceLoop (if n < 0 then length s else nat n) s old new)"

definition strings_ReplaceAll :: "string \<Rightarrow> string \<Rightarrow> string \<Rightarrow> string" where
  "strings_ReplaceAll s old new = strings_Replace s old new (- 1)"

text \<open>
  \<^verbatim>\<open>strings.SplitN(s, sep, n)\<close>: at most \<open>n\<close> substrings, the last one the unsplit
  rest; all of them when \<open>n < 0\<close>; none when \<open>n = 0\<close>. An empty separator splits after
  each rune (\<open>explode\<close>). \<^verbatim>\<open>strings.Split\<close> is the call with \<open>n = -1\<close>, and
  \<^verbatim>\<open>strings.Join\<close> puts the separator back between the elements.
\<close>

fun genSplit :: "nat \<Rightarrow> string \<Rightarrow> string \<Rightarrow> string list" where
  "genSplit 0 s sep = [s]"
| "genSplit (Suc k) s sep =
    (case strings_Index s sep of
       None \<Rightarrow> [s]
     | Some m \<Rightarrow> take m s # genSplit k (drop (m + length sep) s) sep)"

fun explodeLoop :: "nat \<Rightarrow> string \<Rightarrow> string list" where
  "explodeLoop 0 s = [s]"
| "explodeLoop (Suc k) s =
    (case DecodeRuneInString s of (r, w) \<Rightarrow> take w s # explodeLoop k (drop w s))"

definition explode :: "string \<Rightarrow> int \<Rightarrow> string list" where
  "explode s n =
    (let l = length (runes s);
         k = (if n < 0 \<or> int l < n then l else nat n)
     in if k = 0 then [] else explodeLoop (k - 1) s)"

definition strings_SplitN :: "string \<Rightarrow> string \<Rightarrow> int \<Rightarrow> string list" where
  "strings_SplitN s sep n =
    (if n = 0 then []
     else if sep = [] then explode s n
     else genSplit (if n < 0 then length s else min (nat n - 1) (length s)) s sep)"

definition strings_Split :: "string \<Rightarrow> string \<Rightarrow> string list" where
  "strings_Split s sep = strings_SplitN s sep (- 1)"

fun strings_Join :: "string list \<Rightarrow> string \<Rightarrow> string" where
  "strings_Join [] sep = []"
| "strings_Join [a] sep = a"
| "strings_Join (a # b # rest) sep = a @ sep @ strings_Join (b # rest) sep"

section \<open>The program: markdowntoword.go\<close>

text \<open>
  A run-time panic of Go is a value: indexing a string or a slice out of range is the
  only one that \<^verbatim>\<open>processValue\<close> and the loop of \<^verbatim>\<open>parseMarkdown\<close> could raise
  (\<^verbatim>\<open>item[0]\<close> and \<^verbatim>\<open>parts[1]\<close>).
\<close>

datatype panic = IndexOutOfRange

definition index :: "'a list \<Rightarrow> nat \<Rightarrow> panic + 'a" where
  "index xs i = (if i < length xs then Inr (xs ! i) else Inl IndexOutOfRange)"

subsection \<open>processValue\<close>

text \<open>
  The bullet glyph of the source text is U+2022, three bytes in UTF-8.
  \<^verbatim>\<open>string(item[0])\<close> converts the byte to the string that encodes the rune of the same
  value. \<open>bulletLoop\<close> is the \<^verbatim>\<open>for _, item := range listItems\<close> loop with its
  accumulator \<^verbatim>\<open>bulletPoints\<close>.
\<close>

definition bullet :: string where
  "bullet = [CHR 0xE2, CHR 0x80, CHR 0xA2]"

fun bulletLoop :: "string list \<Rightarrow> string list \<Rightarrow> panic + string list" where
  "bulletLoop [] bulletPoints = Inr bulletPoints"
| "bulletLoop (item # rest) bulletPoints =
    (if strings_HasPrefix item ''-'' \<or> strings_HasPrefix item ''+'' then
       (case index item 0 of
          Inl e \<Rightarrow> Inl e
        | Inr b \<Rightarrow>
            bulletLoop rest
              (bulletPoints @ [strings_Replace item (EncodeRune (of_char b)) bullet 1]))
     else bulletLoop rest (bulletPoints @ [item]))"

definition processValue :: "string \<Rightarrow> panic + string" where
  "processValue v =
    (case bulletLoop (strings_Split v ''\<newline>'') [] of
       Inl e \<Rightarrow> Inl e
     | Inr bulletPoints \<Rightarrow> Inr (strings_Join bulletPoints ''\<newline>''))"

subsection \<open>parseMarkdown\<close>

text \<open>
  The local variables of \<^verbatim>\<open>parseMarkdown\<close> that live across iterations of its loop.
  The map \<^verbatim>\<open>data\<close> is a partial function from keys to values.
\<close>

record scan =
  data :: "string \<rightharpoonup> string"
  currentPrefix :: string
  currentKey :: string
  currentValue :: string
  previousLine :: string

definition initial :: scan where
  "initial = \<lparr>data = Map.empty, currentPrefix = [], currentKey = [], currentValue = [],
              previousLine = []\<rparr>"

text \<open>
  The function literal passed to \<^verbatim>\<open>strings.Map\<close> (lines 39-43, 67-71 and 88-92):
  it keeps the space, the underscore, the ASCII letters and digits and the hyphen, and
  drops every other rune.
\<close>

definition keepRune :: "rune \<Rightarrow> rune option" where
  "keepRune r =
    (if r = of_char CHR '' '' \<or> r = of_char CHR ''_''
        \<or> (of_char CHR ''a'' \<le> r \<and> r \<le> of_char CHR ''z'')
        \<or> (of_char CHR ''A'' \<le> r \<and> r \<le> of_char CHR ''Z'')
        \<or> (of_char CHR ''0'' \<le> r \<and> r \<le> of_char CHR ''9'')
        \<or> r = of_char CHR ''-''
     then Some r else None)"

text \<open>
  The key of a third-level heading, from the heading text (lines 39-48); the key of a
  definition list item, from the previous line (lines 67-73); the prefix a second-level
  heading sets, from the line (line 94); and the prefixing of a key (lines 52-54, 75-77).
\<close>

definition headingKey :: "(rune \<Rightarrow> rune) \<Rightarrow> string \<Rightarrow> string" where
  "headingKey tbl heading =
    (let key = strings_Map keepRune (strings_ToLower tbl heading) in
     strings_ToLower tbl
       (strings_ReplaceAll (strings_ReplaceAll (strings_TrimSpace key) '' '' ''-'') ''_'' ''-''))"

definition definitionKey :: "(rune \<Rightarrow> rune) \<Rightarrow> string \<Rightarrow> string" where
  "definitionKey tbl previous =
    (let key = strings_Map keepRune (strings_ToLower tbl previous) in
     strings_ReplaceAll (strings_ReplaceAll key '' '' ''-'') ''_'' ''-'')"

definition sectionPrefix :: "(rune \<Rightarrow> rune) \<Rightarrow> string \<Rightarrow> string" where
  "sectionPrefix tbl line =
    strings_ToLower tbl
      (strings_ReplaceAll
         (strings_ReplaceAll (strings_TrimSpace (strings_TrimPrefix line ''##'')) '' '' ''-'')
         ''_'' ''-'')"

definition withPrefix :: "string \<Rightarrow> string \<Rightarrow> string" where
  "withPrefix prefix key = (if prefix \<noteq> [] then prefix @ ''-'' @ key else key)"

text \<open>
  The statement \<^verbatim>\<open>if currentKey != "" { data[currentKey] = ... }\<close> of lines 56-58,
  82-84 and 104-106.
\<close>

definition flushEntry :: "scan \<Rightarrow> panic + scan" where
  "flushEntry st =
    (if currentKey st \<noteq> [] then
       (case processValue (currentValue st) of
          Inl e \<Rightarrow> Inl e
        | Inr v \<Rightarrow> Inr (st\<lparr>data := (data st)(currentKey st \<mapsto> strings_TrimSpace v)\<rparr>))
     else Inr st)"

text \<open>
  The four branches of the loop body, on the trimmed line. In the branch of a
  second-level heading the source assigns \<^verbatim>\<open>currentPrefix\<close> twice (lines 88 and 94);
  the second assignment is computed from \<^verbatim>\<open>line\<close>, not from the first one's result.
\<close>

definition thirdLevel :: "(rune \<Rightarrow> rune) \<Rightarrow> scan \<Rightarrow> string \<Rightarrow> panic + scan" where
  "thirdLevel tbl st line =
    (let heading = strings_TrimPrefix line ''###'';
         key = withPrefix (currentPrefix st) (headingKey tbl heading)
     in case flushEntry st of
          Inl e \<Rightarrow> Inl e
        | Inr st' \<Rightarrow> Inr (st'\<lparr>currentKey := key, currentValue := []\<rparr>))"

definition definitionItem :: "(rune \<Rightarrow> rune) \<Rightarrow> scan \<Rightarrow> string \<Rightarrow> panic + scan" where
  "definitionItem tbl st line =
    (let parts = strings_SplitN line '':'' 2 in
     if length parts = 2 then
       (let key = withPrefix (currentPrefix st) (definitionKey tbl (previousLine st)) in
        case index parts 1 of
          Inl e \<Rightarrow> Inl e
        | Inr part \<Rightarrow> Inr (st\<lparr>data := (data st)(key \<mapsto> strings_TrimSpace part)\<rparr>))
     else Inr st)"

definition secondLevel :: "(rune \<Rightarrow> rune) \<Rightarrow> scan \<Rightarrow> string \<Rightarrow> panic + scan" where
  "secondLevel tbl st line =
    (case flushEntry st of
       Inl e \<Rightarrow> Inl e
     | Inr st' \<Rightarrow>
         Inr (st'\<lparr>currentKey := [], currentValue := [],
                  currentPrefix := strings_Map keepRune (strings_ToLower tbl line),
                  currentPrefix := sectionPrefix tbl line\<rparr>))"

definition loopBody :: "(rune \<Rightarrow> rune) \<Rightarrow> scan \<Rightarrow> string \<Rightarrow> panic + scan" where
  "loopBody tbl st raw =
    (let line = strings_TrimSpace raw in
     case (if strings_HasPrefix line ''###'' then thirdLevel tbl st line
           else if strings_HasPrefix line '':'' then definitionItem tbl st line
           else if strings_HasPrefix line ''##'' then secondLevel tbl st line
           else if currentKey st \<noteq> [] then
             Inr (st\<lparr>currentValue := currentValue st @ line @ ''\<newline>''\<rparr>)
           else Inr st) of
       Inl e \<Rightarrow> Inl e
     | Inr st' \<Rightarrow> Inr (st'\<lparr>previousLine := line\<rparr>))"

fun scanLines :: "(rune \<Rightarrow> rune) \<Rightarrow> string list \<Rightarrow> scan \<Rightarrow> panic + scan" where
  "scanLines tbl [] st = Inr st"
| "scanLines tbl (raw # rest) st =
    (case loopBody tbl st raw of Inl e \<Rightarrow> Inl e | Inr st' \<Rightarrow> scanLines tbl rest st')"

text \<open>
  \<^verbatim>\<open>parseMarkdown\<close> from the content of the file on: reading the file comes first
  and is not part of the scan, and the printing under \<^verbatim>\<open>verbose\<close> changes no variable.
\<close>

definition parseMarkdown :: "(rune \<Rightarrow> rune) \<Rightarrow> string \<Rightarrow> panic + (string \<rightharpoonup> string)" where
  "parseMarkdown tbl markdown =
    (case scanLines tbl (strings_Split markdown ''\<newline>'') initial of
       Inl e \<Rightarrow> Inl e
     | Inr st \<Rightarrow> (case flushEntry st of Inl e \<Rightarrow> Inl e | Inr st' \<Rightarrow> Inr (data st')))"

subsection \<open>The variant with sanitizeKey\<close>

text \<open>
  The versions of the program in src/unnamed/part_000 move the filter into a function
  \<^verbatim>\<open>sanitizeKey\<close> (lines 17-28) that first folds case with \<^verbatim>\<open>cases.Fold()\<close> of
  golang.org/x/text and then keeps letters and numbers as \<^verbatim>\<open>unicode.IsLetter\<close> and
  \<^verbatim>\<open>unicode.IsNumber\<close> tell them, besides the space, the underscore and the hyphen.

  \<^verbatim>\<open>cases.Fold().String\<close> replaces every code point by its full case folding, a short
  sequence of code points, and copies every byte that is part of no code point. The
  folding table is the parameter \<open>ff\<close>; the two predicates of package
  \<^verbatim>\<open>unicode\<close> are the parameters \<open>isLetter\<close> and \<open>isNumber\<close>.
\<close>

fun cases_Fold :: "(rune \<Rightarrow> rune list) \<Rightarrow> string \<Rightarrow> string" where
  "cases_Fold ff [] = []"
| "cases_Fold ff (c # cs) =
    (case DecodeRuneInString (c # cs) of
       (r, w) \<Rightarrow>
         (if r = RuneError \<and> w = 1 then [c] else concat (map EncodeRune (ff r)))
         @ cases_Fold ff (drop (w - 1) cs))"

text \<open>The function literal of \<^verbatim>\<open>sanitizeKey\<close> (lines 22-27) and the function itself.\<close>

definition sanitizeRune :: "(rune \<Rightarrow> bool) \<Rightarrow> (rune \<Rightarrow> bool) \<Rightarrow> rune \<Rightarrow> rune option" where
  "sanitizeRune isLetter isNumber r =
    (if isLetter r \<or> isNumber r \<or> r = of_char CHR '' '' \<or> r = of_char CHR ''_''
        \<or> r = of_char CHR ''-''
     then Some r else None)"

definition sanitizeKey ::
  "(rune \<Rightarrow> rune list) \<Rightarrow> (rune \<Rightarrow> bool) \<Rightarrow> (rune \<Rightarrow> bool) \<Rightarrow> string \<Rightarrow> string" where
  "sanitizeKey ff isLetter isNumber s =
    strings_Map (sanitizeRune isLetter isNumber) (cases_Fold ff s)"

text \<open>
  The key of a third-level heading in these versions (lines 53-58): the same steps as in
  \<^const>\<open>headingKey\<close>, with \<^const>\<open>sanitizeKey\<close> in the place of the inline filter.
\<close>

definition foldedHeadingKey ::
  "(rune \<Rightarrow> rune list) \<Rightarrow> (rune \<Rightarrow> bool) \<Rightarrow> (rune \<Rightarrow> bool) \<Rightarrow> (rune \<Rightarrow> rune) \<Rightarrow> string
     \<Rightarrow> string" where
  "foldedHeadingKey ff isLetter isNumber tbl heading =
    (let key = sanitizeKey ff isLetter isNumber heading in
     strings_ToLower tbl
       (strings_ReplaceAll (strings_ReplaceAll (strings_TrimSpace key) '' '' ''-'') ''_'' ''-''))"

subsection \<open>replaceMustacheTags\<close>

text \<open>
  The loop of \<^verbatim>\<open>replaceMustacheTags\<close> that fills \<^verbatim>\<open>replaceMap\<close>, the argument of the
  call \<^verbatim>\<open>doc.ReplaceAll(replaceMap)\<close>: in markdowntoword.go every value is copied as it
  is (lines 126-129).
\<close>

definition replaceMap :: "(string \<rightharpoonup> string) \<Rightarrow> (string \<rightharpoonup> string)" where
  "replaceMap d = (\<lambda>key. case d key of None \<Rightarrow> None | Some v \<Rightarrow> Some v)"

text \<open>
  The same loop in the variant of \<^verbatim>\<open>replaceMustacheTags\<close> that the repository
  keeps in src/unnamed/part_000 (lines 125-130): there every value loses its doubled
  and its single asterisks before it enters \<^verbatim>\<open>replaceMap\<close>.
\<close>

definition replaceMapClean :: "(string \<rightharpoonup> string) \<Rightarrow> (string \<rightharpoonup> string)" where
  "replaceMapClean d =
    (\<lambda>key. case d key of
              None \<Rightarrow> None
            | Some v \<Rightarrow> Some (strings_ReplaceAll (strings_ReplaceAll v ''**'' []) ''*'' []))"

section \<open>Vocabulary for the statements\<close>

text \<open>
  The bytes that the function literal \<^const>\<open>keepRune\<close> keeps, the lower-casing of
  \<^const>\<open>unicode_ToLower\<close> on one ASCII byte, and the bytes a finished key of a
  third-level heading is made of: the hyphen, the lower-case ASCII letters and the digits.
\<close>

definition keepByte :: "char \<Rightarrow> bool" where
  "keepByte c = (keepRune (of_char c) \<noteq> None)"

definition lowerByte :: "char \<Rightarrow> char" where
  "lowerByte c = char_of (unicode_ToLower (\<lambda>r. r) (of_char c))"

definition keyByte :: "char \<Rightarrow> bool" where
  "keyByte c =
    (c = CHR ''-''
     \<or> (of_char CHR ''a'' \<le> (of_char c :: nat) \<and> (of_char c :: nat) \<le> of_char CHR ''z'')
     \<or> (of_char CHR ''0'' \<le> (of_char c :: nat) \<and> (of_char c :: nat) \<le> of_char CHR ''9''))"

definition trimSpaces :: "string \<Rightarrow> string" where
  "trimSpaces s = rev (dropWhile (\<lambda>c. c = CHR '' '') (rev (dropWhile (\<lambda>c. c = CHR '' '') s)))"

definition hyphenate :: "char \<Rightarrow> char" where
  "hyphenate c = (if c = CHR '' '' \<or> c = CHR ''_'' then CHR ''-'' else c)"

text \<open>
  What \<^const>\<open>processValue\<close> makes of one line and of a whole value, and what
  \<^const>\<open>flushEntry\<close> makes of a state, once it is known that neither panics.
\<close>

definition bulletItem :: "string \<Rightarrow> string" where
  "bulletItem item =
    (case item of
       [] \<Rightarrow> []
     | c # cs \<Rightarrow> if c = CHR ''-'' \<or> c = CHR ''+'' then bullet @ cs else item)"

definition processed :: "string \<Rightarrow> string" where
  "processed v = strings_Join (map bulletItem (strings_Split v ''\<newline>'')) ''\<newline>''"

definition flushed :: "scan \<Rightarrow> scan" where
  "flushed st =
    (if currentKey st \<noteq> [] then
       st\<lparr>data := (data st)(currentKey st \<mapsto> strings_TrimSpace (processed (currentValue st)))\<rparr>
     else st)"

text \<open>
  The reference pipeline of the specification's key sanitizer (section 4.2), step by
  step in its words: case-fold; keep letters, digits, spaces, underscores and hyphens;
  trim; then one hyphen for each run of spaces and one for each underscore. It is the
  other side of the comparison with \<^const>\<open>headingKey\<close> and with
  \<^const>\<open>foldedHeadingKey\<close>, and takes the case fold and the test for what is kept
  from the version it is compared with.
\<close>

fun hyphenRuns :: "string \<Rightarrow> string" where
  "hyphenRuns [] = []"
| "hyphenRuns [c] = [hyphenate c]"
| "hyphenRuns (c # d # cs) =
    (if c = CHR '' '' \<and> d = CHR '' '' then hyphenRuns (d # cs)
     else hyphenate c # hyphenRuns (d # cs))"

definition referenceSanitizer ::
  "(string \<Rightarrow> string) \<Rightarrow> (rune \<Rightarrow> rune option) \<Rightarrow> string \<Rightarrow> string" where
  "referenceSanitizer caseFold keep s =
    hyphenRuns (strings_TrimSpace (strings_Map keep (caseFold s)))"

text \<open>
  Tables to run the variant on concrete input. They agree with Unicode on ASCII and on
  the letters \<open>U+00C9\<close>, \<open>U+00E9\<close>, \<open>U+00DC\<close> and \<open>U+00FC\<close> (E and U with their
  accents, capital and small), and treat every other code point as a caseless symbol.
\<close>

definition exampleLower :: "rune \<Rightarrow> rune" where
  "exampleLower r = (if r = 0xC9 then 0xE9 else if r = 0xDC then 0xFC else r)"

definition exampleFold :: "rune \<Rightarrow> rune list" where
  "exampleFold r = [unicode_ToLower exampleLower r]"

definition exampleLetter :: "rune \<Rightarrow> bool" where
  "exampleLetter r =
    ((of_char CHR ''a'' \<le> r \<and> r \<le> of_char CHR ''z'')
     \<or> (of_char CHR ''A'' \<le> r \<and> r \<le> of_char CHR ''Z'')
     \<or> r = 0xC9 \<or> r = 0xE9 \<or> r = 0xDC \<or> r = 0xFC)"

definition exampleNumber :: "rune \<Rightarrow> bool" where
  "exampleNumber r = (of_char CHR ''0'' \<le> r \<and> r \<le> of_char CHR ''9'')"

subsection \<open>Code points, their encodings and the Unicode tables\<close>

text \<open>
  A rune is valid when it is a Unicode scalar value: at most \<open>U+10FFFF\<close> and not a
  surrogate. \<^const>\<open>EncodeRune\<close> writes any other rune as \<^const>\<open>RuneError\<close>, which is
  \<open>normRune\<close>. A continuation byte has the form \<^verbatim>\<open>10xxxxxx\<close>. \<open>enc\<close> is the UTF-8
  text of a list of runes.
\<close>

definition validRune :: "rune \<Rightarrow> bool" where
  "validRune r = (r \<le> 0x10FFFF \<and> \<not> (0xD800 \<le> r \<and> r \<le> 0xDFFF))"

definition normRune :: "rune \<Rightarrow> rune" where
  "normRune r = (if validRune r then r else RuneError)"

definition isCont :: "char \<Rightarrow> bool" where
  "isCont b = (0x80 \<le> (of_char b :: nat) \<and> (of_char b :: nat) \<le> 0xBF)"

abbreviation enc :: "rune list \<Rightarrow> string" where
  "enc rs \<equiv> concat (map EncodeRune rs)"

text \<open>
  The rune-level readings of three steps of the key: \<^verbatim>\<open>strings.TrimSpace\<close> drops the
  white space at both ends, the function literal of \<^verbatim>\<open>sanitizeKey\<close> keeps a rune when
  it does not return \<open>-1\<close>, and the two calls of \<^verbatim>\<open>strings.ReplaceAll\<close> turn the space
  and the underscore into the hyphen.
\<close>

definition trimRunes :: "rune list \<Rightarrow> rune list" where
  "trimRunes ks = rev (dropWhile unicode_IsSpace (rev (dropWhile unicode_IsSpace ks)))"

definition keeps :: "(rune \<Rightarrow> bool) \<Rightarrow> (rune \<Rightarrow> bool) \<Rightarrow> rune \<Rightarrow> bool" where
  "keeps isLetter isNumber r = (sanitizeRune isLetter isNumber r \<noteq> None)"

definition hyphenateRune :: "rune \<Rightarrow> rune" where
  "hyphenateRune r = (if r = 32 \<or> r = 95 then 45 else r)"

text \<open>
  The case folding of golang.org/x/text and the tables of package \<^verbatim>\<open>unicode\<close> are data
  outside the repository, so what the variant does twice in a row depends on how they
  fit together. A rune \<open>a\<close> is settled when the variant leaves it alone: folding it,
  keeping what the filter keeps and lower-casing gives back \<open>a\<close> and nothing else, with
  no white space and no underscore among the runes kept. \<open>caseTables\<close> collects what is
  used of the tables:
  \<^item> the folding of a code point is a non-empty sequence of code points;
  \<^item> the lower case of a code point is a code point;
  \<^item> \<open>U+FFFD\<close> is neither a letter nor a number;
  \<^item> the hyphen is settled, and so is the lower case of every letter or number that
    occurs in the folding of a code point.
\<close>

definition settled ::
  "(rune \<Rightarrow> rune list) \<Rightarrow> (rune \<Rightarrow> bool) \<Rightarrow> (rune \<Rightarrow> bool) \<Rightarrow> (rune \<Rightarrow> rune) \<Rightarrow> rune \<Rightarrow> bool" where
  "settled ff isLetter isNumber tbl a =
    (let f = filter (keeps isLetter isNumber) (ff a) in
     (\<forall>x \<in> set f. \<not> unicode_IsSpace x \<and> x \<noteq> 95) \<and> map (unicode_ToLower tbl) f = [a])"

definition caseTables ::
  "(rune \<Rightarrow> rune list) \<Rightarrow> (rune \<Rightarrow> bool) \<Rightarrow> (rune \<Rightarrow> bool) \<Rightarrow> (rune \<Rightarrow> rune) \<Rightarrow> bool" where
  "caseTables ff isLetter isNumber tbl =
    ((\<forall>r. validRune r \<longrightarrow> ff r \<noteq> [] \<and> (\<forall>k \<in> set (ff r). validRune k))
     \<and> (\<forall>r. validRune r \<longrightarrow> validRune (tbl r))
     \<and> \<not> isLetter RuneError \<and> \<not> isNumber RuneError
     \<and> settled ff isLetter isNumber tbl 45
     \<and> (\<forall>r. validRune r \<longrightarrow>
           (\<forall>k \<in> set (ff r). isLetter k \<or> isNumber k \<longrightarrow>
              settled ff isLetter isNumber tbl (unicode_ToLower tbl k))))"

section \<open>Facts about the library model\<close>

subsection \<open>Decoding: a byte past ASCII never yields an ASCII rune\<close>

lemma mod32_lead: "(194::nat) \<le> a \<Longrightarrow> a < 224 \<Longrightarrow> 2 \<le> a mod 32" by presburger
lemma mod16_lead: "(225::nat) \<le> a \<Longrightarrow> a < 240 \<Longrightarrow> 1 \<le> a mod 16" by presburger
lemma mod8_lead: "(241::nat) \<le> a \<Longrightarrow> a \<le> 244 \<Longrightarrow> 1 \<le> a mod 8" by presburger
lemma mod64_e0: "(160::nat) \<le> b \<Longrightarrow> b \<le> 191 \<Longrightarrow> 32 \<le> b mod 64" by presburger
lemma mod64_f0: "(144::nat) \<le> b \<Longrightarrow> b \<le> 191 \<Longrightarrow> 16 \<le> b mod 64" by presburger

lemma Decode_high_rune:
  assumes dec: "DecodeRuneInString (c # cs) = (r, w)" and high: "\<not> (of_char c :: nat) < 0x80"
  shows "0x80 \<le> r"
proof -
  let ?s0 = "of_char c :: nat" and ?s1 = "of_char (cs ! 0) :: nat"
  consider (bad) "?s0 < 0xC2 \<or> 0xF4 < ?s0"
    | (two) "0xC2 \<le> ?s0" "?s0 < 0xE0"
    | (e0) "?s0 = 0xE0"
    | (three) "0xE1 \<le> ?s0" "?s0 < 0xF0"
    | (f0) "?s0 = 0xF0"
    | (four) "0xF1 \<le> ?s0" "?s0 \<le> 0xF4"
    by linarith
  then show ?thesis
  proof cases
    case bad
    with dec high have "r = RuneError" by auto
    then show ?thesis by (simp add: RuneError_def)
  next
    case two
    with dec high have "r = RuneError \<or> r = ?s0 mod 32 * 64 + ?s1 mod 64"
      by (auto simp: Let_def split: if_splits)
    with mod32_lead[of ?s0] two show ?thesis by (auto simp: RuneError_def)
  next
    case e0
    with dec have "r = RuneError \<or> (160 \<le> ?s1 \<and> ?s1 \<le> 191 \<and> (\<exists>y. r = ?s1 mod 64 * 64 + y))"
      by (auto simp: Let_def split: if_splits)
    with mod64_e0[of ?s1] show ?thesis by (auto simp: RuneError_def)
  next
    case three
    with dec have "r = RuneError \<or> (\<exists>y. r = ?s0 mod 16 * 4096 + y)"
      by (auto simp: Let_def add.assoc split: if_splits)
    with mod16_lead[of ?s0] three show ?thesis by (auto simp: RuneError_def)
  next
    case f0
    with dec have "r = RuneError \<or> (144 \<le> ?s1 \<and> ?s1 \<le> 191 \<and> (\<exists>y. r = ?s1 mod 64 * 4096 + y))"
      by (auto simp: Let_def add.assoc split: if_splits)
    with mod64_f0[of ?s1] show ?thesis by (auto simp: RuneError_def)
  next
    case four
    with dec have "r = RuneError \<or> (\<exists>y. r = ?s0 mod 8 * 262144 + y)"
      by (auto simp: Let_def add.assoc split: if_splits)
    with mod8_lead[of ?s0] four show ?thesis by (auto simp: RuneError_def)
  qed
qed

lemma Decode_high_bytes:
  assumes dec: "DecodeRuneInString (c # cs) = (r, w)" and high: "\<not> (of_char c :: nat) < 0x80"
    and i: "i < w - 1"
  shows "i < length cs \<and> \<not> (of_char (cs ! i) :: nat) < 0x80"
proof -
  let ?s0 = "of_char c :: nat"
  consider (bad) "?s0 < 0xC2 \<or> 0xF4 < ?s0"
    | (two) "0xC2 \<le> ?s0" "?s0 < 0xE0"
    | (three) "0xE0 \<le> ?s0" "?s0 < 0xF0"
    | (four) "0xF0 \<le> ?s0" "?s0 \<le> 0xF4"
    by linarith
  then show ?thesis
  proof cases
    case bad
    with dec high have "w = 1" by auto
    with i show ?thesis by simp
  next
    case two
    with dec high have "w = 1 \<or> (w = 2 \<and> cs \<noteq> [] \<and> 0x80 \<le> (of_char (cs ! 0) :: nat))"
      by (auto simp: Let_def split: if_splits)
    with i show ?thesis by auto
  next
    case three
    with dec high have "w = 1 \<or> (w = 3 \<and> 2 \<le> length cs \<and> 0x80 \<le> (of_char (cs ! 0) :: nat)
        \<and> 0x80 \<le> (of_char (cs ! 1) :: nat))"
      by (auto simp: Let_def split: if_splits)
    with i show ?thesis by (auto simp: less_Suc_eq numeral_2_eq_2)
  next
    case four
    with dec high have "w = 1 \<or> (w = 4 \<and> 3 \<le> length cs \<and> 0x80 \<le> (of_char (cs ! 0) :: nat)
        \<and> 0x80 \<le> (of_char (cs ! 1) :: nat) \<and> 0x80 \<le> (of_char (cs ! 2) :: nat))"
      by (auto simp: Let_def split: if_splits)
    with i show ?thesis by (auto simp: less_Suc_eq numeral_2_eq_2 numeral_3_eq_3)
  qed
qed


subsection \<open>Mapping, lower-casing, trimming and replacing over ASCII\<close>

lemma keepRune_Some: "keepRune r = Some r' \<Longrightarrow> r' = r \<and> r < 0x80"
  by (auto simp: keepRune_def split: if_splits)

lemma keepRune_high: "0x80 \<le> r \<Longrightarrow> keepRune r = None"
  by (auto simp: keepRune_def)

lemma keepByte_ascii: "keepByte c \<Longrightarrow> (of_char c :: nat) < 0x80"
  by (auto simp: keepByte_def dest: keepRune_Some)

lemma keepRune_byte: "keepRune (of_char c) = (if keepByte c then Some (of_char c) else None)"
  by (auto simp: keepByte_def dest: keepRune_Some)

lemma EncodeRune_ascii: "(of_char c :: nat) < 0x80 \<Longrightarrow> EncodeRune (of_char c) = [c]"
  by (simp add: EncodeRune_def)

lemma runes_Cons_ascii: "(of_char c :: nat) < 0x80 \<Longrightarrow> runes (c # cs) = of_char c # runes cs"
  by simp

lemma strings_Map_Nil: "strings_Map f [] = []"
  by (simp add: strings_Map_def)

lemma strings_Map_Cons_ascii:
  "(of_char c :: nat) < 0x80 \<Longrightarrow>
   strings_Map f (c # cs) =
     (case f (of_char c) of None \<Rightarrow> [] | Some r \<Rightarrow> EncodeRune r) @ strings_Map f cs"
  by (simp add: strings_Map_def)

lemma take_all_high:
  assumes dec: "DecodeRuneInString (c # cs) = (r, w)" and high: "\<not> (of_char c :: nat) < 0x80"
  shows "filter keepByte (take (w - 1) cs) = []"
proof -
  have "\<not> keepByte b" if "b \<in> set (take (w - 1) cs)" for b
  proof -
    from that obtain i where i: "i < length (take (w - 1) cs)" and b: "b = take (w - 1) cs ! i"
      by (auto simp: in_set_conv_nth)
    from i have "i < w - 1" by simp
    from Decode_high_bytes[OF dec high this] b i show ?thesis
      by (auto dest: keepByte_ascii)
  qed
  then show ?thesis by (simp add: filter_empty_conv)
qed

lemma strings_Map_keepRune: "strings_Map keepRune s = filter keepByte s"
proof (induction s rule: length_induct)
  case (1 s)
  show ?case
  proof (cases s)
    case Nil
    then show ?thesis by (simp add: strings_Map_Nil)
  next
    case (Cons c cs)
    show ?thesis
    proof (cases "(of_char c :: nat) < 0x80")
      case True
      from 1 Cons have "strings_Map keepRune cs = filter keepByte cs" by simp
      with True show ?thesis
        unfolding Cons by (simp add: strings_Map_Cons_ascii keepRune_byte EncodeRune_ascii)
    next
      case False
      obtain r w where dec: "DecodeRuneInString (c # cs) = (r, w)"
        by (cases "DecodeRuneInString (c # cs)")
      from Decode_high_rune[OF dec False] have drop: "keepRune r = None"
        by (rule keepRune_high)
      from 1 Cons have ih: "strings_Map keepRune (drop (w - 1) cs) = filter keepByte (drop (w - 1) cs)"
        by simp
      have "strings_Map keepRune (c # cs) = strings_Map keepRune (drop (w - 1) cs)"
        using dec drop by (simp add: strings_Map_def del: DecodeRuneInString.simps)
      also have "\<dots> = filter keepByte (take (w - 1) cs) @ filter keepByte (drop (w - 1) cs)"
        using ih take_all_high[OF dec False] by simp
      also have "\<dots> = filter keepByte cs"
        by (simp flip: filter_append)
      also have "\<dots> = filter keepByte (c # cs)"
        using False keepByte_ascii[of c] by auto
      finally show ?thesis unfolding Cons .
    qed
  qed
qed

lemma Encode_lower_ascii:
  "(of_char c :: nat) < 0x80 \<Longrightarrow> EncodeRune (unicode_ToLower tbl (of_char c)) = [lowerByte c]"
  by (auto simp: EncodeRune_def unicode_ToLower_def lowerByte_def)

lemma ToLower_Nil: "strings_ToLower tbl [] = []"
  by (simp add: strings_ToLower_def strings_Map_Nil)

lemma ToLower_Cons_ascii:
  "(of_char c :: nat) < 0x80 \<Longrightarrow>
   strings_ToLower tbl (c # cs) = lowerByte c # strings_ToLower tbl cs"
  by (simp add: strings_ToLower_def strings_Map_Cons_ascii Encode_lower_ascii)

lemma ToLower_ascii:
  "\<forall>c \<in> set s. (of_char c :: nat) < 0x80 \<Longrightarrow> strings_ToLower tbl s = map lowerByte s"
  by (induction s) (simp_all add: ToLower_Nil ToLower_Cons_ascii)

lemma trimStop_ascii:
  "\<forall>c \<in> set s. (of_char c :: nat) < 0x80 \<Longrightarrow> trimStop s = dropWhile asciiSpace s"
  by (induction s) auto

lemma TrimSpace_ascii:
  "\<forall>c \<in> set s. (of_char c :: nat) < 0x80 \<Longrightarrow>
   strings_TrimSpace s = rev (dropWhile asciiSpace (rev (dropWhile asciiSpace s)))"
proof (induction s)
  case Nil
  show ?case by simp
next
  case (Cons c cs)
  show ?case
  proof (cases "asciiSpace c")
    case True
    with Cons show ?thesis by simp
  next
    case False
    from Cons.prems have "\<forall>b \<in> set (rev (c # cs)). (of_char b :: nat) < 0x80" by simp
    then have "trimStop (rev (c # cs)) = dropWhile asciiSpace (rev (c # cs))"
      by (rule trimStop_ascii)
    with False Cons.prems show ?thesis by simp
  qed
qed

lemma Index_single_Cons:
  "strings_Index (c # cs) [a] = (if c = a then Some 0 else map_option Suc (strings_Index cs [a]))"
  by (simp add: strings_HasPrefix_def)

lemma replaceLoop_Cons_eq:
  "replaceLoop (Suc n) (a # cs) [a] new = new @ replaceLoop n cs [a] new"
  by (simp add: Index_single_Cons del: strings_Index.simps)

lemma replaceLoop_Cons_neq:
  "c \<noteq> a \<Longrightarrow> replaceLoop (Suc n) (c # cs) [a] new = c # replaceLoop (Suc n) cs [a] new"
  by (simp add: Index_single_Cons del: strings_Index.simps split: option.splits)

lemma replaceLoop_single:
  "length s \<le> n \<Longrightarrow>
   replaceLoop n s [a] new = concat (map (\<lambda>c. if c = a then new else [c]) s)"
proof (induction s arbitrary: n)
  case Nil
  show ?case by (cases n) simp_all
next
  case (Cons c cs)
  then obtain m where n: "n = Suc m" and m: "length cs \<le> m"
    by (cases n) auto
  show ?case
  proof (cases "c = a")
    case True
    with Cons.IH[OF m] show ?thesis
      unfolding n by (simp add: replaceLoop_Cons_eq del: replaceLoop.simps)
  next
    case False
    from m have "length cs \<le> Suc m" by simp
    from Cons.IH[OF this] False show ?thesis
      unfolding n by (simp add: replaceLoop_Cons_neq del: replaceLoop.simps)
  qed
qed

lemma concat_map_single: "concat (map (\<lambda>c. [f c]) s) = map f s"
  by (induction s) simp_all

lemma concat_map_delete: "concat (map (\<lambda>c. if c = a then [] else [c]) s) = filter (\<lambda>c. c \<noteq> a) s"
  by (induction s) simp_all

lemma ReplaceAll_single:
  assumes "a \<noteq> b"
  shows "strings_ReplaceAll s [a] [b] = map (\<lambda>c. if c = a then b else c) s"
proof -
  have "(\<lambda>c. if c = a then [b] else [c]) = (\<lambda>c. [if c = a then b else c])"
    by (rule ext) simp
  with assms show ?thesis
    by (simp add: strings_ReplaceAll_def strings_Replace_def replaceLoop_single
        concat_map_single)
qed

lemma ReplaceAll_delete: "strings_ReplaceAll s [a] [] = filter (\<lambda>c. c \<noteq> a) s"
  by (simp add: strings_ReplaceAll_def strings_Replace_def replaceLoop_single concat_map_delete)

section \<open>Facts about the keys\<close>

lemma keepByte_space: "keepByte c \<Longrightarrow> asciiSpace c \<longleftrightarrow> c = CHR '' ''"
  by (auto simp: keepByte_def keepRune_def asciiSpace_def split: if_splits)

lemma dropWhile_cong_set: "(\<And>x. x \<in> set xs \<Longrightarrow> P x = Q x) \<Longrightarrow> dropWhile P xs = dropWhile Q xs"
  by (induction xs) auto

lemma TrimSpace_keep:
  assumes "\<forall>c \<in> set s. keepByte c"
  shows "strings_TrimSpace s = trimSpaces s"
proof -
  from assms have "\<forall>c \<in> set s. (of_char c :: nat) < 0x80"
    by (auto dest: keepByte_ascii)
  then have "strings_TrimSpace s = rev (dropWhile asciiSpace (rev (dropWhile asciiSpace s)))"
    by (rule TrimSpace_ascii)
  moreover have l: "dropWhile asciiSpace s = dropWhile (\<lambda>c. c = CHR '' '') s"
    using assms by (intro dropWhile_cong_set) (simp add: keepByte_space)
  moreover have "dropWhile asciiSpace (rev (dropWhile (\<lambda>c. c = CHR '' '') s))
      = dropWhile (\<lambda>c. c = CHR '' '') (rev (dropWhile (\<lambda>c. c = CHR '' '') s))"
    using assms by (intro dropWhile_cong_set) (auto simp: keepByte_space dest: set_dropWhileD)
  ultimately show ?thesis by (simp add: trimSpaces_def)
qed

lemma set_trimSpaces: "set (trimSpaces s) \<subseteq> set s"
  by (auto simp: trimSpaces_def dest!: set_dropWhileD)

lemma hyphenate_ascii: "keepByte c \<Longrightarrow> (of_char (hyphenate c) :: nat) < 0x80"
  by (auto simp: hyphenate_def dest: keepByte_ascii)

lemma headingKey_bytes:
  "headingKey tbl s =
     map (\<lambda>c. lowerByte (hyphenate c)) (trimSpaces (filter keepByte (strings_ToLower tbl s)))"
proof -
  let ?k = "filter keepByte (strings_ToLower tbl s)"
  have keep: "\<forall>c \<in> set (trimSpaces ?k). keepByte c"
    using set_trimSpaces[of ?k] by auto
  have trim: "strings_TrimSpace ?k = trimSpaces ?k"
    by (rule TrimSpace_keep) simp
  have repl: "strings_ReplaceAll (strings_ReplaceAll (trimSpaces ?k) '' '' ''-'') ''_'' ''-''
      = map hyphenate (trimSpaces ?k)"
    by (simp add: ReplaceAll_single hyphenate_def)
  have "\<forall>c \<in> set (map hyphenate (trimSpaces ?k)). (of_char c :: nat) < 0x80"
    using keep by (auto intro: hyphenate_ascii)
  then have "strings_ToLower tbl (map hyphenate (trimSpaces ?k))
      = map lowerByte (map hyphenate (trimSpaces ?k))"
    by (rule ToLower_ascii)
  then show ?thesis
    by (simp add: headingKey_def strings_Map_keepRune trim repl)
qed

lemma of_char_space: "((of_char c :: nat) = 32) = (c = CHR '' '')"
proof -
  have "(of_char CHR '' '' :: nat) = 32" by simp
  then show ?thesis by (metis of_char_eq_iff)
qed

lemma of_char_underscore: "((of_char c :: nat) = 95) = (c = CHR ''_'')"
proof -
  have "(of_char CHR ''_'' :: nat) = 95" by simp
  then show ?thesis by (metis of_char_eq_iff)
qed

lemma of_char_hyphen: "((of_char c :: nat) = 45) = (c = CHR ''-'')"
proof -
  have "(of_char CHR ''-'' :: nat) = 45" by simp
  then show ?thesis by (metis of_char_eq_iff)
qed

lemma lowerByte_upper:
  assumes "of_char CHR ''A'' \<le> (of_char c :: nat)" "(of_char c :: nat) \<le> of_char CHR ''Z''"
  shows "(of_char (lowerByte c) :: nat) = of_char c + 32"
  using assms by (simp add: lowerByte_def unicode_ToLower_def)

lemma lowerByte_other:
  assumes "\<not> (of_char CHR ''A'' \<le> (of_char c :: nat) \<and> (of_char c :: nat) \<le> of_char CHR ''Z'')"
  shows "lowerByte c = c"
  using assms by (auto simp: lowerByte_def unicode_ToLower_def)

lemma keyByte_keep: "keyByte c \<Longrightarrow> keepByte c"
  by (auto simp: keyByte_def keepByte_def keepRune_def)

lemma keyByte_lower: "keyByte c \<Longrightarrow> lowerByte c = c"
  by (rule lowerByte_other) (auto simp: keyByte_def)

lemma keyByte_hyphenate: "keyByte c \<Longrightarrow> hyphenate c = c"
  by (auto simp: keyByte_def hyphenate_def)

lemma keyByte_not_space: "keyByte c \<Longrightarrow> c \<noteq> CHR '' ''"
  by (auto simp: keyByte_def)

lemma lowerByte_hyphenate_key:
  assumes "keepByte c"
  shows "keyByte (lowerByte (hyphenate c))"
proof (cases "c = CHR '' '' \<or> c = CHR ''_''")
  case True
  then have "hyphenate c = CHR ''-''" by (auto simp: hyphenate_def)
  moreover have "lowerByte CHR ''-'' = CHR ''-''" by (rule lowerByte_other) simp
  ultimately show ?thesis by (simp add: keyByte_def)
next
  case False
  then have h: "hyphenate c = c" by (simp add: hyphenate_def)
  show ?thesis
  proof (cases "of_char CHR ''A'' \<le> (of_char c :: nat) \<and> (of_char c :: nat) \<le> of_char CHR ''Z''")
    case True
    then have "(of_char (lowerByte c) :: nat) = of_char c + 32"
      by (intro lowerByte_upper) auto
    with True show ?thesis unfolding h by (auto simp: keyByte_def)
  next
    case upper: False
    then have "lowerByte c = c" by (rule lowerByte_other)
    moreover from assms False upper have "keyByte c"
      by (auto simp: keepByte_def keepRune_def keyByte_def of_char_space of_char_underscore
          of_char_hyphen split: if_splits)
    ultimately show ?thesis unfolding h by simp
  qed
qed

lemma headingKey_keyBytes: "\<forall>c \<in> set (headingKey tbl s). keyByte c"
proof -
  have "keepByte c" if "c \<in> set (trimSpaces (filter keepByte (strings_ToLower tbl s)))" for c
    using that set_trimSpaces[of "filter keepByte (strings_ToLower tbl s)"] by auto
  then show ?thesis
    by (auto simp: headingKey_bytes intro: lowerByte_hyphenate_key)
qed

lemma trimSpaces_no_space: "\<forall>c \<in> set s. c \<noteq> CHR '' '' \<Longrightarrow> trimSpaces s = s"
proof -
  assume a: "\<forall>c \<in> set s. c \<noteq> CHR '' ''"
  then have "dropWhile (\<lambda>c. c = CHR '' '') s = s"
    by (cases s) auto
  moreover from a have "dropWhile (\<lambda>c. c = CHR '' '') (rev s) = rev s"
    by (cases "rev s") (auto simp: rev_is_Nil_conv dest: arg_cong[where f=set])
  ultimately show ?thesis by (simp add: trimSpaces_def)
qed

lemma headingKey_fixed:
  assumes "\<forall>c \<in> set k. keyByte c"
  shows "headingKey tbl k = k"
proof -
  from assms have "\<forall>c \<in> set k. (of_char c :: nat) < 0x80"
    by (auto dest: keyByte_keep keepByte_ascii)
  then have "strings_ToLower tbl k = map lowerByte k" by (rule ToLower_ascii)
  also from assms have "\<dots> = k" by (simp add: keyByte_lower map_idI)
  finally have lower: "strings_ToLower tbl k = k" .
  from assms have keep: "filter keepByte k = k" by (auto intro: keyByte_keep filter_True)
  from assms have "\<forall>c \<in> set k. c \<noteq> CHR '' ''" by (auto dest: keyByte_not_space)
  then have trim: "trimSpaces k = k" by (rule trimSpaces_no_space)
  from assms have "map (\<lambda>c. lowerByte (hyphenate c)) k = k"
    by (simp add: keyByte_lower keyByte_hyphenate map_idI)
  then show ?thesis by (simp add: headingKey_bytes lower keep trim)
qed

lemma headingKey_hash: "headingKey tbl (CHR ''#'' # rest) = headingKey tbl rest"
proof -
  have "lowerByte CHR ''#'' = CHR ''#''" by (rule lowerByte_other) simp
  moreover have "\<not> keepByte CHR ''#''" by (simp add: keepByte_def keepRune_def)
  ultimately show ?thesis by (simp add: headingKey_bytes ToLower_Cons_ascii)
qed

section \<open>Facts about the program\<close>

lemma HasPrefix_single: "strings_HasPrefix s [d] \<longleftrightarrow> (\<exists>cs. s = d # cs)"
  by (cases s) (auto simp: strings_HasPrefix_def)

lemma Replace_first_byte:
  assumes "new \<noteq> [c]"
  shows "strings_Replace (c # cs) [c] new 1 = new @ cs"
  using assms by (auto simp: strings_Replace_def strings_HasPrefix_def)

lemma bulletLoop_map: "bulletLoop items acc = Inr (acc @ map bulletItem items)"
proof (induction items arbitrary: acc)
  case Nil
  show ?case by simp
next
  case (Cons item rest)
  show ?case
  proof (cases "strings_HasPrefix item ''-'' \<or> strings_HasPrefix item ''+''")
    case True
    then obtain c cs where item: "item = c # cs" and c: "c = CHR ''-'' \<or> c = CHR ''+''"
      by (auto simp: HasPrefix_single)
    from c have enc: "EncodeRune (of_char c) = [c]"
      by (auto intro: EncodeRune_ascii)
    from c have "bullet \<noteq> [c]" by (auto simp: bullet_def)
    then have "strings_Replace item (EncodeRune (of_char c)) bullet 1 = bullet @ cs"
      unfolding item enc by (rule Replace_first_byte)
    with True item c show ?thesis
      by (simp add: Cons.IH index_def bulletItem_def)
  next
    case False
    then have "bulletItem item = item"
      by (auto simp: bulletItem_def HasPrefix_single split: list.splits)
    with False show ?thesis
      by (simp add: Cons.IH)
  qed
qed

lemma processValue_processed: "processValue v = Inr (processed v)"
  by (simp add: processValue_def processed_def bulletLoop_map)

lemma flushEntry_flushed: "flushEntry st = Inr (flushed st)"
  by (simp add: flushEntry_def flushed_def processValue_processed)

lemma SplitN_colon: "strings_SplitN (CHR '':'' # rest) '':'' 2 = [[], rest]"
  by (simp add: strings_SplitN_def strings_HasPrefix_def)

lemma definitionItem_colon:
  "definitionItem tbl st (CHR '':'' # rest) =
     Inr (st\<lparr>data := (data st)(withPrefix (currentPrefix st) (definitionKey tbl (previousLine st))
                                   \<mapsto> strings_TrimSpace rest)\<rparr>)"
  by (simp add: definitionItem_def SplitN_colon index_def)

lemma thirdLevel_flushed:
  "thirdLevel tbl st line =
     Inr ((flushed st)\<lparr>currentKey :=
             withPrefix (currentPrefix st) (headingKey tbl (strings_TrimPrefix line ''###'')),
           currentValue := []\<rparr>)"
  by (simp add: thirdLevel_def flushEntry_flushed)

lemma secondLevel_flushed:
  "secondLevel tbl st line =
     Inr ((flushed st)\<lparr>currentKey := [], currentValue := [],
                       currentPrefix := sectionPrefix tbl line\<rparr>)"
  by (simp add: secondLevel_def flushEntry_flushed)

lemma HasPrefix_colon_not_hash:
  "strings_HasPrefix line '':'' \<Longrightarrow> \<not> strings_HasPrefix line ''###''"
  by (cases line) (auto simp: strings_HasPrefix_def)

lemma HasPrefix3_2: "strings_HasPrefix line ''###'' \<Longrightarrow> strings_HasPrefix line ''##''"
  by (cases line; cases "tl line") (auto simp: strings_HasPrefix_def)

lemma currentPrefix_flushed: "currentPrefix (flushed st) = currentPrefix st"
  by (simp add: flushed_def)

lemma loopBody_cases:
  "loopBody tbl st raw =
    (let line = strings_TrimSpace raw in
     if strings_HasPrefix line ''###'' then
       Inr ((flushed st)\<lparr>currentKey :=
               withPrefix (currentPrefix st) (headingKey tbl (strings_TrimPrefix line ''###'')),
             currentValue := [], previousLine := line\<rparr>)
     else if strings_HasPrefix line '':'' then
       Inr (st\<lparr>data := (data st)(withPrefix (currentPrefix st) (definitionKey tbl (previousLine st))
                                   \<mapsto> strings_TrimSpace (tl line)),
              previousLine := line\<rparr>)
     else if strings_HasPrefix line ''##'' then
       Inr ((flushed st)\<lparr>currentKey := [], currentValue := [],
                         currentPrefix := sectionPrefix tbl line, previousLine := line\<rparr>)
     else if currentKey st \<noteq> [] then
       Inr (st\<lparr>currentValue := currentValue st @ line @ ''\<newline>'', previousLine := line\<rparr>)
     else Inr (st\<lparr>previousLine := line\<rparr>))"
  by (auto simp: loopBody_def Let_def thirdLevel_flushed secondLevel_flushed
      definitionItem_colon HasPrefix_single)

lemma loopBody_total: "\<exists>st'. loopBody tbl st raw = Inr st'"
  by (simp add: loopBody_cases Let_def)

lemma scanLines_total: "\<exists>st'. scanLines tbl ls st = Inr st'"
proof (induction ls arbitrary: st)
  case Nil
  show ?case by simp
next
  case (Cons raw rest)
  obtain st' where "loopBody tbl st raw = Inr st'"
    using loopBody_total by blast
  with Cons.IH[of st'] show ?case by simp
qed

lemma parse_returns: "\<exists>m. parseMarkdown tbl markdown = Inr m"
proof -
  obtain st where "scanLines tbl (strings_Split markdown ''\<newline>'') initial = Inr st"
    using scanLines_total by blast
  then show ?thesis by (simp add: parseMarkdown_def flushEntry_flushed)
qed

lemma scanLines_plain:
  assumes "\<forall>raw \<in> set ls. \<not> strings_HasPrefix (strings_TrimSpace raw) ''##''
             \<and> \<not> strings_HasPrefix (strings_TrimSpace raw) '':''"
    and "currentKey st = []"
  shows "\<exists>st'. scanLines tbl ls st = Inr st' \<and> data st' = data st \<and> currentKey st' = []"
  using assms
proof (induction ls arbitrary: st)
  case Nil
  then show ?case by simp
next
  case (Cons raw rest)
  from Cons.prems have "loopBody tbl st raw = Inr (st\<lparr>previousLine := strings_TrimSpace raw\<rparr>)"
    by (auto simp: loopBody_cases Let_def dest: HasPrefix3_2)
  moreover from Cons.prems
  have "\<exists>st'. scanLines tbl rest (st\<lparr>previousLine := strings_TrimSpace raw\<rparr>) = Inr st'
      \<and> data st' = data (st\<lparr>previousLine := strings_TrimSpace raw\<rparr>) \<and> currentKey st' = []"
    by (intro Cons.IH) auto
  ultimately show ?case by auto
qed

lemma parse_plain:
  assumes "\<forall>raw \<in> set (strings_Split markdown ''\<newline>'').
             \<not> strings_HasPrefix (strings_TrimSpace raw) ''##''
             \<and> \<not> strings_HasPrefix (strings_TrimSpace raw) '':''"
  shows "parseMarkdown tbl markdown = Inr Map.empty"
proof -
  from scanLines_plain[OF assms, of initial tbl]
  obtain st' where "scanLines tbl (strings_Split markdown ''\<newline>'') initial = Inr st'"
    and "data st' = Map.empty" and "currentKey st' = []"
    by (auto simp: initial_def)
  then show ?thesis
    by (simp add: parseMarkdown_def flushEntry_flushed flushed_def)
qed

lemma Split_empty: "strings_Split [] ''\<newline>'' = [[]]"
  by (simp add: strings_Split_def strings_SplitN_def)

lemma parse_empty: "parseMarkdown tbl [] = Inr Map.empty"
  by (rule parse_plain) (simp add: Split_empty strings_HasPrefix_def)

lemma replaceMapClean_no_asterisk:
  assumes "replaceMapClean d key = Some v"
  shows "CHR ''*'' \<notin> set v"
  using assms by (auto simp: replaceMapClean_def ReplaceAll_delete split: option.splits)

subsection \<open>The steps of the heading keys\<close>

lemma ReplaceAll_hyphenate:
  "strings_ReplaceAll (strings_ReplaceAll x '' '' ''-'') ''_'' ''-'' = map hyphenate x"
  by (simp add: ReplaceAll_single hyphenate_def)

lemma headingKey_steps:
  "headingKey tbl s =
     strings_ToLower tbl
       (map hyphenate (strings_TrimSpace (filter keepByte (strings_ToLower tbl s))))"
  by (simp add: headingKey_def ReplaceAll_hyphenate strings_Map_keepRune)

lemma foldedHeadingKey_steps:
  "foldedHeadingKey ff isLetter isNumber tbl s =
     strings_ToLower tbl (map hyphenate (strings_TrimSpace (sanitizeKey ff isLetter isNumber s)))"
  by (simp add: foldedHeadingKey_def ReplaceAll_hyphenate)



lemma Index_absent:
  assumes "a \<notin> set v"
  shows "strings_Index v (a # p) = None"
  using assms by (induction v) (auto simp: strings_HasPrefix_def)

section \<open>Facts about UTF-8 and the variant with sanitizeKey\<close>

subsection \<open>Decoding an encoding gives the rune back\<close>

lemma mod_offset: "q < b \<Longrightarrow> (b * k + q) mod b = (q::nat)"
  by simp

lemma mod32_192: "q < 32 \<Longrightarrow> (192 + q) mod 32 = (q::nat)"
  using mod_offset[of q 32 6] by simp

lemma mod64_128: "q < 64 \<Longrightarrow> (128 + q) mod 64 = (q::nat)"
  using mod_offset[of q 64 2] by simp

lemma mod16_224: "q < 16 \<Longrightarrow> (224 + q) mod 16 = (q::nat)"
  using mod_offset[of q 16 14] by simp

lemma mod8_240: "q < 8 \<Longrightarrow> (240 + q) mod 8 = (q::nat)"
  using mod_offset[of q 8 30] by simp

lemma Decode2:
  assumes "(of_char c0 :: nat) = 192 + a" "2 \<le> a" "a < 32"
    and "(of_char c1 :: nat) = 128 + b" "b < 64"
  shows "DecodeRuneInString (c0 # c1 # t) = (a * 64 + b, 2)"
  using assms by (simp add: Let_def mod32_192 mod64_128)

lemma Decode3:
  assumes "(of_char c0 :: nat) = 224 + a" "a < 16"
    and "(of_char c1 :: nat) = 128 + b" "b < 64"
    and "(of_char c2 :: nat) = 128 + c" "c < 64"
    and "a = 0 \<longrightarrow> 32 \<le> b" "a = 13 \<longrightarrow> b < 32"
  shows "DecodeRuneInString (c0 # c1 # c2 # t) = (a * 4096 + b * 64 + c, 3)"
  using assms by (auto simp: Let_def mod16_224 mod64_128)

lemma Decode4:
  assumes "(of_char c0 :: nat) = 240 + a" "a \<le> 4"
    and "(of_char c1 :: nat) = 128 + b" "b < 64"
    and "(of_char c2 :: nat) = 128 + c" "c < 64"
    and "(of_char c3 :: nat) = 128 + d" "d < 64"
    and "a = 0 \<longrightarrow> 16 \<le> b" "a = 4 \<longrightarrow> b < 16"
  shows "DecodeRuneInString (c0 # c1 # c2 # c3 # t) = (a * 262144 + b * 4096 + c * 64 + d, 4)"
  using assms by (auto simp: Let_def mod8_240 mod64_128)

lemma of_char_of_small: "n < 256 \<Longrightarrow> (of_char (char_of (n::nat)) :: nat) = n"
  by simp

lemma norm_cases:
  fixes r :: nat
  obtains (ascii) "r \<le> 0x7F"
  | (two) "0x80 \<le> r" "r \<le> 0x7FF"
  | (three) "0x800 \<le> r" "r \<le> 0xFFFF" "\<not> (0xD800 \<le> r \<and> r \<le> 0xDFFF)"
  | (four) "0x10000 \<le> r" "r \<le> 0x10FFFF"
  | (bad) "\<not> validRune r"
  unfolding validRune_def by linarith

lemma digits2:
  fixes r :: nat
  assumes "0x80 \<le> r" "r \<le> 0x7FF"
  obtains a b where "r = a * 64 + b" "r div 64 = a" "r mod 64 = b" "2 \<le> a" "a < 32" "b < 64"
proof -
  have "r = r div 64 * 64 + r mod 64" by simp
  moreover have "r mod 64 < 64" by simp
  moreover from assms have "r div 64 < 32" by (simp add: less_mult_imp_div_less)
  moreover from assms have "128 div 64 \<le> r div 64" by (intro div_le_mono) simp
  then have "2 \<le> r div 64" by simp
  ultimately show ?thesis using that by blast
qed

lemma digits3:
  fixes r :: nat
  assumes "0x800 \<le> r" "r \<le> 0xFFFF"
  obtains a b c where "r = a * 4096 + b * 64 + c" "r div 4096 = a" "(r div 64) mod 64 = b"
    "r mod 64 = c" "a < 16" "b < 64" "c < 64"
proof -
  have d: "r div 4096 = r div 64 div 64" by (simp add: div_mult2_eq)
  have "r div 64 = r div 64 div 64 * 64 + r div 64 mod 64" by simp
  then have "r = (r div 4096 * 64 + r div 64 mod 64) * 64 + r mod 64"
    unfolding d by simp
  then have "r = r div 4096 * 4096 + (r div 64) mod 64 * 64 + r mod 64"
    by (simp add: algebra_simps)
  moreover from assms have "r div 4096 < 16" by (simp add: less_mult_imp_div_less)
  ultimately show ?thesis using that[of "r div 4096" "(r div 64) mod 64" "r mod 64"] by simp
qed

lemma digits4:
  fixes r :: nat
  assumes "0x10000 \<le> r" "r \<le> 0x10FFFF"
  obtains a b c d where "r = a * 262144 + b * 4096 + c * 64 + d" "r div 262144 = a"
    "(r div 4096) mod 64 = b" "(r div 64) mod 64 = c" "r mod 64 = d"
    "a \<le> 4" "b < 64" "c < 64" "d < 64"
proof -
  have d1: "r div 4096 = r div 64 div 64" by (simp add: div_mult2_eq)
  have d2: "r div 262144 = r div 4096 div 64" by (simp add: div_mult2_eq)
  have e1: "r = r div 64 * 64 + r mod 64" by simp
  have e2: "r div 64 = r div 4096 * 64 + r div 64 mod 64" unfolding d1 by simp
  have e3: "r div 4096 = r div 262144 * 64 + r div 4096 mod 64" unfolding d2 by simp
  have "r = ((r div 262144 * 64 + r div 4096 mod 64) * 64 + r div 64 mod 64) * 64 + r mod 64"
    using e1 e2 e3 by simp
  then have "r = r div 262144 * 262144 + (r div 4096) mod 64 * 4096 + (r div 64) mod 64 * 64
      + r mod 64"
    by (simp add: algebra_simps)
  moreover from assms have "r div 262144 < 5" by (simp add: less_mult_imp_div_less)
  ultimately show ?thesis
    using that[of "r div 262144" "(r div 4096) mod 64" "(r div 64) mod 64" "r mod 64"] by simp
qed

lemma validRune_RuneError: "validRune RuneError"
  by (simp add: validRune_def RuneError_def)

lemma validRune_norm: "validRune (normRune r)"
  by (simp add: normRune_def validRune_RuneError)

lemma normRune_valid: "validRune r \<Longrightarrow> normRune r = r"
  by (simp add: normRune_def)

lemma Decode_Encode:
  "DecodeRuneInString (EncodeRune r @ t) = (normRune r, length (EncodeRune r))"
proof (cases r rule: norm_cases)
  case ascii
  then have "validRune r" by (simp add: validRune_def)
  with ascii show ?thesis by (simp add: EncodeRune_def normRune_def)
next
  case two
  then obtain a b where d: "r = a * 64 + b" "r div 64 = a" "r mod 64 = b" "2 \<le> a" "a < 32" "b < 64"
    by (rule digits2)
  from two have v: "validRune r" by (simp add: validRune_def)
  from two have e: "EncodeRune r = [char_of (0xC0 + r div 64), char_of (0x80 + r mod 64)]"
    by (simp add: EncodeRune_def)
  have "DecodeRuneInString (char_of (192 + a) # char_of (128 + b) # t) = (a * 64 + b, 2)"
    using d by (intro Decode2) simp_all
  with d v show ?thesis unfolding e by (simp add: normRune_def)
next
  case three
  from three(1,2) obtain a b c where d: "r = a * 4096 + b * 64 + c" "r div 4096 = a" "(r div 64) mod 64 = b"
    "r mod 64 = c" "a < 16" "b < 64" "c < 64"
    by (rule digits3[of r])
  from three have v: "validRune r" by (simp add: validRune_def)
  from three have e: "EncodeRune r = [char_of (0xE0 + r div 4096),
      char_of (0x80 + (r div 64) mod 64), char_of (0x80 + r mod 64)]"
    by (auto simp: EncodeRune_def)
  from three d have lo: "a = 0 \<longrightarrow> 32 \<le> b" by auto
  from three d have hi: "a = 13 \<longrightarrow> b < 32" by auto
  have "DecodeRuneInString (char_of (224 + a) # char_of (128 + b) # char_of (128 + c) # t)
      = (a * 4096 + b * 64 + c, 3)"
    using d lo hi by (intro Decode3) simp_all
  with d v show ?thesis unfolding e by (simp add: normRune_def)
next
  case four
  then obtain a b c d where d: "r = a * 262144 + b * 4096 + c * 64 + d" "r div 262144 = a"
    "(r div 4096) mod 64 = b" "(r div 64) mod 64 = c" "r mod 64 = d"
    "a \<le> 4" "b < 64" "c < 64" "d < 64"
    by (rule digits4[of r])
  from four have v: "validRune r" by (simp add: validRune_def)
  from four have e: "EncodeRune r = [char_of (0xF0 + r div 262144),
      char_of (0x80 + (r div 4096) mod 64), char_of (0x80 + (r div 64) mod 64),
      char_of (0x80 + r mod 64)]"
    by (auto simp: EncodeRune_def)
  from four d have lo: "a = 0 \<longrightarrow> 16 \<le> b" by auto
  from four d have hi: "a = 4 \<longrightarrow> b < 16" by auto
  have "DecodeRuneInString (char_of (240 + a) # char_of (128 + b) # char_of (128 + c)
      # char_of (128 + d) # t) = (a * 262144 + b * 4096 + c * 64 + d, 4)"
    using d lo hi by (intro Decode4) simp_all
  with d v show ?thesis unfolding e by (simp add: normRune_def)
next
  case bad
  then have e: "EncodeRune r = [CHR 0xEF, CHR 0xBF, CHR 0xBD]"
    by (auto simp: EncodeRune_def validRune_def)
  have "DecodeRuneInString (CHR 0xEF # CHR 0xBF # CHR 0xBD # t) = (15 * 4096 + 63 * 64 + 61, 3)"
    by (intro Decode3) simp_all
  with bad show ?thesis unfolding e by (simp add: normRune_def RuneError_def)
qed

lemma Encode_shape:
  obtains (one) "r \<le> 0x7F" "EncodeRune r = [char_of r]"
  | (more) b0 bs where "EncodeRune r = b0 # bs" "0xC0 \<le> (of_char b0 :: nat)" "bs \<noteq> []"
      "length bs \<le> 3" "\<forall>b \<in> set bs. isCont b"
proof (cases r rule: norm_cases)
  case ascii
  then show ?thesis by (intro one) (simp_all add: EncodeRune_def)
next
  case two
  then obtain a b where d: "r = a * 64 + b" "r div 64 = a" "r mod 64 = b" "2 \<le> a" "a < 32" "b < 64"
    by (rule digits2)
  from two have e: "EncodeRune r = [char_of (0xC0 + r div 64), char_of (0x80 + r mod 64)]"
    by (simp add: EncodeRune_def)
  show ?thesis using d by (intro more[OF e]) (simp_all add: isCont_def)
next
  case three
  from three(1,2) obtain a b c where d: "r = a * 4096 + b * 64 + c" "r div 4096 = a"
    "(r div 64) mod 64 = b" "r mod 64 = c" "a < 16" "b < 64" "c < 64"
    by (rule digits3[of r])
  from three have e: "EncodeRune r = [char_of (0xE0 + r div 4096),
      char_of (0x80 + (r div 64) mod 64), char_of (0x80 + r mod 64)]"
    by (auto simp: EncodeRune_def)
  show ?thesis using d by (intro more[OF e]) (simp_all add: isCont_def)
next
  case four
  then obtain a b c d where d: "r = a * 262144 + b * 4096 + c * 64 + d" "r div 262144 = a"
    "(r div 4096) mod 64 = b" "(r div 64) mod 64 = c" "r mod 64 = d"
    "a \<le> 4" "b < 64" "c < 64" "d < 64"
    by (rule digits4[of r])
  from four have e: "EncodeRune r = [char_of (0xF0 + r div 262144),
      char_of (0x80 + (r div 4096) mod 64), char_of (0x80 + (r div 64) mod 64),
      char_of (0x80 + r mod 64)]"
    by (auto simp: EncodeRune_def)
  show ?thesis using d by (intro more[OF e]) (simp_all add: isCont_def)
next
  case bad
  then have e: "EncodeRune r = [CHR 0xEF, CHR 0xBF, CHR 0xBD]"
    by (auto simp: EncodeRune_def validRune_def)
  show ?thesis by (intro more[OF e]) (simp_all add: isCont_def)
qed

lemma Encode_nonempty: "EncodeRune r \<noteq> []"
  by (cases r rule: Encode_shape) simp_all

lemma Encode_hd_not_cont: "\<not> isCont (hd (EncodeRune r))"
  by (cases r rule: Encode_shape) (simp_all add: isCont_def)

lemma Encode_high_bytes: "0x80 \<le> r \<Longrightarrow> \<forall>b \<in> set (EncodeRune r). 0x80 \<le> (of_char b :: nat)"
  by (cases r rule: Encode_shape) (auto simp: isCont_def)

lemma runes_Encode: "runes (EncodeRune r @ t) = normRune r # runes t"
proof -
  obtain b bs where e: "EncodeRune r = b # bs"
    using Encode_nonempty[of r] by (cases "EncodeRune r") auto
  have "DecodeRuneInString (b # bs @ t) = (normRune r, Suc (length bs))"
    using Decode_Encode[of r t] unfolding e by simp
  then show ?thesis unfolding e by (simp del: DecodeRuneInString.simps)
qed

lemma runes_enc: "runes (concat (map EncodeRune rs) @ t) = map normRune rs @ runes t"
  by (induction rs) (simp_all add: runes_Encode)

subsection \<open>The decoder returns valid runes only\<close>

lemma mod16_bounds: "(224::nat) \<le> s \<Longrightarrow> s < 240 \<Longrightarrow> s mod 16 = s - 224"
  using mod16_224[of "s - 224"] by simp

lemma mod8_bounds: "(240::nat) \<le> s \<Longrightarrow> s \<le> 244 \<Longrightarrow> s mod 8 = s - 240"
  using mod8_240[of "s - 240"] by simp

lemma mod32_bounds: "(192::nat) \<le> s \<Longrightarrow> s < 224 \<Longrightarrow> s mod 32 = s - 192"
  using mod32_192[of "s - 192"] by simp

lemma mod64_bounds: "(128::nat) \<le> s \<Longrightarrow> s \<le> 191 \<Longrightarrow> s mod 64 = s - 128"
  using mod64_128[of "s - 128"] by simp

lemma Decode_valid:
  assumes dec: "DecodeRuneInString s = (r, w)"
  shows "validRune r"
proof (cases s)
  case Nil
  with dec show ?thesis by (simp add: validRune_RuneError)
next
  case (Cons c cs)
  let ?s0 = "of_char c :: nat" and ?s1 = "of_char (cs ! 0) :: nat"
    and ?s2 = "of_char (cs ! 1) :: nat" and ?s3 = "of_char (cs ! 2) :: nat"
  note dec' = dec[unfolded Cons]
  consider (ascii) "?s0 < 0x80" | (bad) "0x80 \<le> ?s0" "?s0 < 0xC2 \<or> 0xF4 < ?s0"
    | (two) "0xC2 \<le> ?s0" "?s0 < 0xE0"
    | (three) "0xE0 \<le> ?s0" "?s0 < 0xF0"
    | (four) "0xF0 \<le> ?s0" "?s0 \<le> 0xF4"
    by linarith
  then show ?thesis
  proof cases
    case ascii
    with dec' show ?thesis by (auto simp: validRune_def)
  next
    case bad
    with dec' have "r = RuneError" by auto
    then show ?thesis by (simp add: validRune_RuneError)
  next
    case two
    with dec' have "r = RuneError \<or> (r = ?s0 mod 32 * 64 + ?s1 mod 64)"
      by (auto simp: Let_def split: if_splits)
    moreover have "?s0 mod 32 < 32" "?s1 mod 64 < 64" by simp_all
    ultimately show ?thesis by (auto simp: validRune_def RuneError_def)
  next
    case three
    with dec' have "r = RuneError \<or> (r = ?s0 mod 16 * 4096 + ?s1 mod 64 * 64 + ?s2 mod 64
        \<and> 0x80 \<le> ?s1 \<and> ?s1 \<le> 0xBF \<and> (?s0 = 0xED \<longrightarrow> ?s1 \<le> 0x9F))"
      by (auto simp: Let_def split: if_splits)
    then show ?thesis
    proof
      assume "r = RuneError"
      then show ?thesis by (simp add: validRune_RuneError)
    next
      assume R: "r = ?s0 mod 16 * 4096 + ?s1 mod 64 * 64 + ?s2 mod 64
        \<and> 0x80 \<le> ?s1 \<and> ?s1 \<le> 0xBF \<and> (?s0 = 0xED \<longrightarrow> ?s1 \<le> 0x9F)"
      define a where "a = ?s0 - 224"
      define b where "b = ?s1 - 128"
      define d where "d = ?s2 mod 64"
      have a: "?s0 mod 16 = a" "a < 16" using three mod16_bounds[of ?s0] by (auto simp: a_def)
      have b: "?s1 mod 64 = b" "b < 64" using R mod64_bounds[of ?s1] by (auto simp: b_def)
      have d: "d < 64" by (simp add: d_def)
      have r: "r = a * 4096 + b * 64 + d" using R a b by (simp add: d_def)
      have sur: "a = 13 \<longrightarrow> b \<le> 31" using R three by (auto simp: a_def b_def)
      consider "a \<le> 12" | "a = 13" "b \<le> 31" | "14 \<le> a" using sur by linarith
      then show ?thesis unfolding validRune_def r using a(2) b(2) d by cases simp_all
    qed
  next
    case four
    with dec' have "r = RuneError \<or> (r = ?s0 mod 8 * 262144 + ?s1 mod 64 * 4096
          + ?s2 mod 64 * 64 + ?s3 mod 64
        \<and> 0x80 \<le> ?s1 \<and> ?s1 \<le> 0xBF \<and> (?s0 = 0xF0 \<longrightarrow> 0x90 \<le> ?s1)
        \<and> (?s0 = 0xF4 \<longrightarrow> ?s1 \<le> 0x8F))"
      by (auto simp: Let_def split: if_splits)
    then show ?thesis
    proof
      assume "r = RuneError"
      then show ?thesis by (simp add: validRune_RuneError)
    next
      assume R: "r = ?s0 mod 8 * 262144 + ?s1 mod 64 * 4096
          + ?s2 mod 64 * 64 + ?s3 mod 64
        \<and> 0x80 \<le> ?s1 \<and> ?s1 \<le> 0xBF \<and> (?s0 = 0xF0 \<longrightarrow> 0x90 \<le> ?s1)
        \<and> (?s0 = 0xF4 \<longrightarrow> ?s1 \<le> 0x8F)"
      define a where "a = ?s0 - 240"
      define b where "b = ?s1 - 128"
      define d where "d = ?s2 mod 64"
      define e where "e = ?s3 mod 64"
      have a: "?s0 mod 8 = a" "a \<le> 4" using four mod8_bounds[of ?s0] by (auto simp: a_def)
      have b: "?s1 mod 64 = b" "b < 64" using R mod64_bounds[of ?s1] by (auto simp: b_def)
      have d: "d < 64" "e < 64" by (simp_all add: d_def e_def)
      have r: "r = a * 262144 + b * 4096 + d * 64 + e" using R a b by (simp add: d_def e_def)
      have hi: "a = 4 \<longrightarrow> b \<le> 15" using R four by (auto simp: a_def b_def)
      have lo: "a = 0 \<longrightarrow> 16 \<le> b" using R four by (auto simp: a_def b_def)
      consider "a = 0" "16 \<le> b" | "1 \<le> a" "a \<le> 3" | "a = 4" "b \<le> 15"
        using hi lo a(2) by linarith
      then show ?thesis unfolding validRune_def r using b(2) d by cases simp_all
    qed
  qed
qed

subsection \<open>Folding: what follows an invalid byte decides nothing new\<close>

lemma list3_cases:
  obtains (e) "t = []" | (one) a where "t = [a]" | (two) a b where "t = [a, b]"
  | (three) a b d u where "t = a # b # d # u"
proof (cases t)
  case Nil then show ?thesis by (rule e)
next
  case (Cons a t1)
  show ?thesis
  proof (cases t1)
    case Nil with Cons show ?thesis by (intro one) simp
  next
    case (Cons b t2)
    note c2 = this
    show ?thesis
    proof (cases t2)
      case Nil with c2 \<open>t = a # t1\<close> show ?thesis by (intro two) simp
    next
      case (Cons d u) with c2 \<open>t = a # t1\<close> show ?thesis by (intro three) simp
    qed
  qed
qed

lemma Decode_cont_prefix:
  "DecodeRuneInString (c # t) = DecodeRuneInString (c # takeWhile isCont t)"
proof (cases t rule: list3_cases)
  case e
  then show ?thesis by simp
next
  case (one a)
  then show ?thesis by (simp add: Let_def isCont_def)
next
  case (two a b)
  then show ?thesis by (simp add: Let_def isCont_def)
next
  case (three a b d u)
  then show ?thesis by (simp add: Let_def isCont_def)
qed

lemma Decode_cont: "isCont c \<Longrightarrow> DecodeRuneInString (c # cs) = (RuneError, 1)"
  by (simp add: isCont_def)

lemma enc_hd_not_cont: "rs \<noteq> [] \<Longrightarrow> takeWhile isCont (enc rs @ t) = []"
proof (cases rs)
  case Nil then show "rs \<noteq> [] \<Longrightarrow> ?thesis" by simp
next
  case (Cons k ks)
  obtain b bs where e: "EncodeRune k = b # bs"
    using Encode_nonempty[of k] by (cases "EncodeRune k") auto
  have "\<not> isCont b" using Encode_hd_not_cont[of k] e by simp
  then show ?thesis using Cons e by simp
qed

lemma Fold_cont_prefix:
  assumes ne: "\<forall>r. validRune r \<longrightarrow> ff r \<noteq> []"
  shows "takeWhile isCont (cases_Fold ff t) = takeWhile isCont t"
proof (induction t)
  case Nil
  then show ?case by simp
next
  case (Cons c cs)
  show ?case
  proof (cases "isCont c")
    case True
    then show ?thesis using Cons by (simp add: Decode_cont del: DecodeRuneInString.simps)
  next
    case False
    obtain r w where d: "DecodeRuneInString (c # cs) = (r, w)" by (cases "DecodeRuneInString (c # cs)")
    have "validRune r" using d by (rule Decode_valid)
    then have "ff r \<noteq> []" using ne by simp
    then show ?thesis using False d
      by (simp add: enc_hd_not_cont del: DecodeRuneInString.simps)
  qed
qed

lemma Encode_length_one: "length (EncodeRune r) = 1 \<Longrightarrow> r \<le> 0x7F"
  by (cases r rule: Encode_shape) auto

lemma Fold_Cons:
  "DecodeRuneInString (c # cs) = (r, w) \<Longrightarrow>
     cases_Fold ff (c # cs) =
       (if r = RuneError \<and> w = 1 then [c] else enc (ff r)) @ cases_Fold ff (drop (w - 1) cs)"
  by (simp del: DecodeRuneInString.simps)

lemma Fold_Encode:
  assumes v: "validRune r"
  shows "cases_Fold ff (EncodeRune r @ t) = enc (ff r) @ cases_Fold ff t"
proof -
  obtain b bs where e: "EncodeRune r = b # bs"
    using Encode_nonempty[of r] by (cases "EncodeRune r") auto
  have d: "DecodeRuneInString (b # bs @ t) = (r, Suc (length bs))"
    using Decode_Encode[of r t] v by (simp add: e normRune_valid)
  have n: "\<not> (r = RuneError \<and> Suc (length bs) = 1)"
    using Encode_length_one[of r] e by (auto simp: RuneError_def)
  have "cases_Fold ff (b # bs @ t) =
      (if r = RuneError \<and> Suc (length bs) = 1 then [b] else enc (ff r)) @ cases_Fold ff t"
    using Fold_Cons[OF d, of ff] by simp
  then show ?thesis using n by (simp only: e append_Cons if_not_P if_False)
qed

lemma Fold_enc:
  "\<forall>r \<in> set rs. validRune r \<Longrightarrow>
     cases_Fold ff (enc rs @ t) = enc (concat (map ff rs)) @ cases_Fold ff t"
  by (induction rs) (simp_all add: Fold_Encode)

lemma runes_Fold:
  assumes ne: "\<forall>r. validRune r \<longrightarrow> ff r \<noteq> [] \<and> (\<forall>k \<in> set (ff r). validRune k)"
  shows "\<forall>x \<in> set (runes (cases_Fold ff s)). x = RuneError \<or> (\<exists>r. validRune r \<and> x \<in> set (ff r))"
proof (induction s rule: length_induct)
  case (1 s)
  show ?case
  proof (cases s)
    case Nil
    then show ?thesis by simp
  next
    case (Cons c cs)
    obtain r w where d: "DecodeRuneInString (c # cs) = (r, w)" by (cases "DecodeRuneInString (c # cs)")
    have v: "validRune r" using d by (rule Decode_valid)
    have ne': "\<forall>r. validRune r \<longrightarrow> ff r \<noteq> []" using ne by simp
    have ih: "\<forall>x \<in> set (runes (cases_Fold ff (drop (w - 1) cs))).
        x = RuneError \<or> (\<exists>r. validRune r \<and> x \<in> set (ff r))"
    proof -
      have "length (drop (w - 1) cs) < length s" using Cons by simp
      then show ?thesis using 1 by blast
    qed
    show ?thesis
    proof (cases "r = RuneError \<and> w = 1")
      case True
      have "DecodeRuneInString (c # cases_Fold ff cs) = DecodeRuneInString (c # cs)"
        using Decode_cont_prefix[of c "cases_Fold ff cs"] Decode_cont_prefix[of c cs]
          Fold_cont_prefix[OF ne', of cs] by simp
      then show ?thesis using True d ih Cons
        by (simp del: DecodeRuneInString.simps)
    next
      case False
      have f: "cases_Fold ff s = enc (ff r) @ cases_Fold ff (drop (w - 1) cs)"
        using False by (simp only: Cons Fold_Cons[OF d] if_not_P if_False)
      have "map normRune (ff r) = ff r"
        using ne v by (simp add: normRune_valid map_idI)
      then have "runes (cases_Fold ff s) = ff r @ runes (cases_Fold ff (drop (w - 1) cs))"
        by (simp add: f runes_enc)
      then show ?thesis using ih v by auto
    qed
  qed
qed

subsection \<open>Trimming an encoding\<close>

lemma RuneStart_iff: "RuneStart b = (\<not> isCont b)"
proof -
  have "(of_char b :: nat) < 256" by simp
  then have "(of_char b :: nat) div 64 = 2 \<longleftrightarrow> 128 \<le> (of_char b :: nat) \<and> (of_char b :: nat) \<le> 191"
    by arith
  then show ?thesis unfolding RuneStart_def isCont_def by simp
qed

lemma of_char_nat_eq: "((of_char c :: nat) = of_char d) = (c = d)"
  by (rule of_char_eq_iff)

lemma asciiSpace_of_char:
  "asciiSpace c = ((of_char c :: nat) \<in> {0x09, 0x0A, 0x0B, 0x0C, 0x0D, 0x20})"
proof -
  have "(c = CHR 0x09) = ((of_char c :: nat) = 9)" using of_char_nat_eq[of c "CHR 0x09"] by simp
  moreover have "(c = CHR 0x0A) = ((of_char c :: nat) = 10)" using of_char_nat_eq[of c "CHR 0x0A"] by simp
  moreover have "(c = CHR 0x0B) = ((of_char c :: nat) = 11)" using of_char_nat_eq[of c "CHR 0x0B"] by simp
  moreover have "(c = CHR 0x0C) = ((of_char c :: nat) = 12)" using of_char_nat_eq[of c "CHR 0x0C"] by simp
  moreover have "(c = CHR 0x0D) = ((of_char c :: nat) = 13)" using of_char_nat_eq[of c "CHR 0x0D"] by simp
  moreover have "(c = CHR '' '') = ((of_char c :: nat) = 32)" using of_char_nat_eq[of c "CHR '' ''"] by simp
  ultimately show ?thesis unfolding asciiSpace_def by simp
qed

lemma asciiSpace_IsSpace: "k \<le> 0x7F \<Longrightarrow> asciiSpace (char_of k) = unicode_IsSpace k"
proof -
  assume k: "k \<le> 0x7F"
  then have "(of_char (char_of k) :: nat) = k" by (intro of_char_of_small) simp
  then show ?thesis using k by (simp add: asciiSpace_of_char unicode_IsSpace_def del: of_char_of)
qed

lemma TrimLeft_Encode:
  assumes v: "validRune k"
  shows "TrimLeftFunc f (EncodeRune k @ t) =
     (if f k then TrimLeftFunc f t else EncodeRune k @ t)"
proof -
  obtain b bs where e: "EncodeRune k = b # bs"
    using Encode_nonempty[of k] by (cases "EncodeRune k") auto
  have d: "DecodeRuneInString (b # bs @ t) = (k, Suc (length bs))"
    using Decode_Encode[of k t] v by (simp add: e normRune_valid)
  show ?thesis unfolding e using d by (simp del: DecodeRuneInString.simps)
qed

lemma TrimLeft_enc:
  "\<forall>k \<in> set ks. validRune k \<Longrightarrow> TrimLeftFunc f (enc ks) = enc (dropWhile f ks)"
  by (induction ks) (simp_all add: TrimLeft_Encode)

lemma DecodeLast_Encode:
  assumes v: "validRune k"
  shows "DecodeLastRuneInString (xs @ EncodeRune k) = (k, length (EncodeRune k))"
proof (cases k rule: Encode_shape)
  case one
  have "(of_char (char_of k) :: nat) = k" using one by (intro of_char_of_small) simp
  then show ?thesis using one
    by (simp add: DecodeLastRuneInString_def nth_append del: of_char_of)
next
  case (more b0 bs)
  have d: "DecodeRuneInString (b0 # bs) = (k, Suc (length bs))"
    using Decode_Encode[of k "[]"] v by (simp add: more normRune_valid)
  have s0: "RuneStart b0" using more(2) by (simp add: RuneStart_iff isCont_def)
  consider (1) a where "bs = [a]" | (2) a b where "bs = [a, b]" | (3) a b c where "bs = [a, b, c]"
    using more(3,4) by (cases bs rule: list3_cases) auto
  then show ?thesis
  proof cases
    case 1
    have c: "isCont a" using more(5) 1 by simp
    then have h: "\<not> (of_char a :: nat) < 128" by (simp add: isCont_def)
    show ?thesis unfolding more(1) 1 DecodeLastRuneInString_def
      using d[unfolded 1] s0 c h
      by (simp add: nth_append Let_def RuneStart_iff del: DecodeRuneInString.simps)
  next
    case 2
    have c: "isCont a" "isCont b" using more(5) 2 by simp_all
    then have h: "\<not> (of_char b :: nat) < 128" by (simp add: isCont_def)
    show ?thesis unfolding more(1) 2 DecodeLastRuneInString_def
      using d[unfolded 2] s0 c h
      by (simp add: nth_append Let_def RuneStart_iff del: DecodeRuneInString.simps)
  next
    case 3
    have c: "isCont a" "isCont b" "isCont c" using more(5) 3 by simp_all
    then have h: "\<not> (of_char c :: nat) < 128" by (simp add: isCont_def)
    show ?thesis unfolding more(1) 3 DecodeLastRuneInString_def
      using d[unfolded 3] s0 c h
      by (simp add: nth_append Let_def RuneStart_iff del: DecodeRuneInString.simps)
  qed
qed

lemma TrimRightRev_Encode:
  assumes v: "validRune k"
  shows "TrimRightRev f (rev (EncodeRune k) @ u) =
     (if f k then TrimRightRev f u else rev (EncodeRune k) @ u)"
proof -
  obtain c cs where e: "rev (EncodeRune k) = c # cs"
    using Encode_nonempty[of k] by (cases "rev (EncodeRune k)") auto
  then have l: "length (EncodeRune k) = Suc (length cs)"
    by (metis length_rev length_Cons)
  have "rev (c # cs @ u) = rev u @ EncodeRune k"
    using e by (metis append_Cons rev_append rev_rev_ident)
  then have d: "DecodeLastRuneInString (rev (c # cs @ u)) = (k, Suc (length cs))"
    using DecodeLast_Encode[OF v, of "rev u"] l by simp
  have "TrimRightRev f (c # cs @ u) = (if f k then TrimRightRev f u else c # cs @ u)"
    unfolding TrimRightRev.simps d by simp
  then show ?thesis by (simp add: e)
qed

lemma TrimRightRev_enc:
  "\<forall>k \<in> set js. validRune k \<Longrightarrow>
     TrimRightRev f (rev (enc (rev js))) = rev (enc (rev (dropWhile f js)))"
  by (induction js) (simp_all add: TrimRightRev_Encode)

lemma trimStop_enc:
  "\<forall>k \<in> set js. validRune k \<Longrightarrow>
     trimStop (rev (enc (rev js))) = rev (enc (rev (dropWhile unicode_IsSpace js)))"
proof (induction js)
  case Nil
  then show ?case by simp
next
  case (Cons k js)
  let ?R = "rev (enc (rev js))"
  have w: "rev (enc (rev (k # js))) = rev (EncodeRune k) @ ?R" by simp
  show ?case
  proof (cases "k \<le> 0x7F")
    case True
    then have e: "EncodeRune k = [char_of k]" by (simp add: EncodeRune_def)
    have o: "(of_char (char_of k) :: nat) = k" using True by (intro of_char_of_small) simp
    have "trimStop (char_of k # ?R) = (if unicode_IsSpace k then trimStop ?R else char_of k # ?R)"
      using True o asciiSpace_IsSpace[OF True] by (simp del: of_char_of)
    then show ?thesis using Cons by (simp add: e)
  next
    case False
    obtain c cs where r: "rev (EncodeRune k) = c # cs"
      using Encode_nonempty[of k] by (cases "rev (EncodeRune k)") auto
    then have "c \<in> set (EncodeRune k)" by (metis list.set_intros(1) set_rev)
    then have "(0x80 :: nat) \<le> of_char c" using Encode_high_bytes[of k] False by simp
    then have "trimStop (c # cs @ ?R) = TrimRightRev unicode_IsSpace (c # cs @ ?R)" by simp
    then have "trimStop (rev (enc (rev (k # js)))) =
        TrimRightRev unicode_IsSpace (rev (enc (rev (k # js))))"
      by (simp add: r)
    then show ?thesis using Cons.prems by (simp only: TrimRightRev_enc)
  qed
qed

lemma TrimSpace_enc:
  "\<forall>k \<in> set ks. validRune k \<Longrightarrow> strings_TrimSpace (enc ks) = enc (trimRunes ks)"
proof (induction ks)
  case Nil
  then show ?case by (simp add: trimRunes_def)
next
  case (Cons k ks)
  show ?case
  proof (cases "k \<le> 0x7F")
    case True
    then have e: "EncodeRune k = [char_of k]" by (simp add: EncodeRune_def)
    have o: "(of_char (char_of k) :: nat) = k" using True by (intro of_char_of_small) simp
    have t: "strings_TrimSpace (char_of k # enc ks) =
        (if unicode_IsSpace k then strings_TrimSpace (enc ks)
         else rev (trimStop (rev (char_of k # enc ks))))"
      using True o asciiSpace_IsSpace[OF True] by (simp del: of_char_of)
    show ?thesis
    proof (cases "unicode_IsSpace k")
      case True
      then show ?thesis using t Cons by (simp add: e trimRunes_def)
    next
      case False
      have v: "\<forall>x \<in> set (rev (k # ks)). validRune x" using Cons.prems by simp
      have "char_of k # enc ks = enc (k # ks)" by (simp add: e)
      then have "trimStop (rev (char_of k # enc ks)) =
          rev (enc (rev (dropWhile unicode_IsSpace (rev (k # ks)))))"
        using trimStop_enc[OF v] by (simp only: rev_rev_ident)
      then have "strings_TrimSpace (char_of k # enc ks) =
          enc (rev (dropWhile unicode_IsSpace (rev (k # ks))))"
        using t False by (simp only: if_False rev_rev_ident)
      then show ?thesis using False by (simp add: e trimRunes_def)
    qed
  next
    case False
    obtain c cs where r: "EncodeRune k = c # cs"
      using Encode_nonempty[of k] by (cases "EncodeRune k") auto
    then have "(0x80 :: nat) \<le> of_char c" using Encode_high_bytes[of k] False by simp
    then have "strings_TrimSpace (c # cs @ enc ks) = TrimFunc unicode_IsSpace (c # cs @ enc ks)"
      by simp
    then have "strings_TrimSpace (enc (k # ks)) = TrimFunc unicode_IsSpace (enc (k # ks))"
      by (simp add: r)
    also have "\<dots> = rev (TrimRightRev unicode_IsSpace
        (rev (enc (rev (rev (dropWhile unicode_IsSpace (k # ks)))))))"
      using TrimLeft_enc[OF Cons.prems, of unicode_IsSpace]
      by (simp only: TrimFunc_def TrimRightFunc_def rev_rev_ident)
    also have "\<dots> = enc (trimRunes (k # ks))"
    proof -
      have "\<forall>x \<in> set (rev (dropWhile unicode_IsSpace (k # ks))). validRune x"
        using Cons.prems by (auto dest: set_dropWhileD)
      then have "TrimRightRev unicode_IsSpace
          (rev (enc (rev (rev (dropWhile unicode_IsSpace (k # ks)))))) =
          rev (enc (rev (dropWhile unicode_IsSpace (rev (dropWhile unicode_IsSpace (k # ks))))))"
        by (rule TrimRightRev_enc)
      then show ?thesis by (simp only: trimRunes_def rev_rev_ident)
    qed
    finally show ?thesis .
  qed
qed

subsection \<open>The steps of the variant on an encoding\<close>

lemma runes_enc_valid: "\<forall>r \<in> set rs. validRune r \<Longrightarrow> runes (enc rs) = rs"
  using runes_enc[of rs "[]"] by (simp add: normRune_valid map_idI)

lemma Map_sanitize:
  "strings_Map (sanitizeRune isLetter isNumber) x = enc (filter (keeps isLetter isNumber) (runes x))"
proof -
  have "concat (map (\<lambda>c. case sanitizeRune isLetter isNumber c of None \<Rightarrow> [] | Some r \<Rightarrow> EncodeRune r) rs)
      = enc (filter (keeps isLetter isNumber) rs)" for rs
    by (induction rs) (auto simp: keeps_def sanitizeRune_def)
  then show ?thesis by (simp add: strings_Map_def)
qed

lemma ToLower_enc:
  "\<forall>r \<in> set rs. validRune r \<Longrightarrow> strings_ToLower tbl (enc rs) = enc (map (unicode_ToLower tbl) rs)"
  by (simp add: strings_ToLower_def strings_Map_def runes_enc_valid comp_def)

lemma hyphenate_Encode: "map hyphenate (EncodeRune r) = EncodeRune (hyphenateRune r)"
proof (cases "r \<le> 0x7F")
  case True
  then have o: "(of_char (char_of r) :: nat) = r" by (intro of_char_of_small) simp
  have "(char_of r = CHR '' '') = (r = 32)" "(char_of r = CHR ''_'') = (r = 95)"
    using o of_char_space[of "char_of r"] of_char_underscore[of "char_of r"] by simp_all
  then show ?thesis using True
    by (simp add: EncodeRune_def hyphenate_def hyphenateRune_def char_of_def bit_Suc_0_iff)
next
  case False
  then have "\<forall>b \<in> set (EncodeRune r). 0x80 \<le> (of_char b :: nat)" by (intro Encode_high_bytes) simp
  then have "\<forall>b \<in> set (EncodeRune r). hyphenate b = b"
    by (auto simp: hyphenate_def)
  then have "map hyphenate (EncodeRune r) = EncodeRune r" by (simp add: map_idI)
  then show ?thesis using False by (simp add: hyphenateRune_def)
qed

lemma hyphenate_enc: "map hyphenate (enc rs) = enc (map hyphenateRune rs)"
  by (induction rs) (simp_all add: hyphenate_Encode)

lemma trimRunes_none: "\<forall>x \<in> set fs. \<not> unicode_IsSpace x \<Longrightarrow> trimRunes fs = fs"
proof -
  assume a: "\<forall>x \<in> set fs. \<not> unicode_IsSpace x"
  have d: "dropWhile unicode_IsSpace xs = xs" if "\<forall>x \<in> set xs. \<not> unicode_IsSpace x" for xs
    using that by (cases xs) simp_all
  have "dropWhile unicode_IsSpace fs = fs" using a by (rule d)
  moreover have "dropWhile unicode_IsSpace (rev fs) = rev fs" using a by (intro d) simp
  ultimately show ?thesis by (simp add: trimRunes_def)
qed

lemma set_trimRunes: "set (trimRunes ks) \<subseteq> set ks"
proof -
  have "set (dropWhile unicode_IsSpace (rev (dropWhile unicode_IsSpace ks))) \<subseteq> set ks"
    by (metis set_dropWhileD set_rev subsetI)
  then show ?thesis by (simp add: trimRunes_def)
qed

lemma ToLower_valid:
  assumes "\<forall>r. validRune r \<longrightarrow> validRune (tbl r)" "validRune k"
  shows "validRune (unicode_ToLower tbl k)"
proof (cases "k \<le> 0x7F")
  case True
  then show ?thesis by (simp add: unicode_ToLower_def validRune_def)
next
  case False
  then show ?thesis using assms by (simp add: unicode_ToLower_def)
qed

lemma settled_fixed:
  assumes t1: "\<forall>r. validRune r \<longrightarrow> ff r \<noteq> [] \<and> (\<forall>k \<in> set (ff r). validRune k)"
    and v: "\<forall>a \<in> set as. validRune a"
    and st: "\<forall>a \<in> set as. settled ff isLetter isNumber tbl a"
  shows "foldedHeadingKey ff isLetter isNumber tbl (enc as) = enc as"
proof -
  let ?keep = "keeps isLetter isNumber"
  let ?fs = "concat (map (\<lambda>a. filter ?keep (ff a)) as)"
  have vf: "\<forall>x \<in> set (concat (map ff as)). validRune x" using t1 v by auto
  have "cases_Fold ff (enc as) = enc (concat (map ff as))"
    using Fold_enc[OF v, of ff "[]"] by simp
  then have "sanitizeKey ff isLetter isNumber (enc as) = enc (filter ?keep (concat (map ff as)))"
    by (simp add: sanitizeKey_def Map_sanitize runes_enc_valid[OF vf])
  also have "filter ?keep (concat (map ff as)) = ?fs"
    by (simp add: filter_concat comp_def)
  finally have san: "sanitizeKey ff isLetter isNumber (enc as) = enc ?fs" .
  have el: "\<forall>x \<in> set ?fs. validRune x \<and> \<not> unicode_IsSpace x \<and> x \<noteq> 95"
    using st t1 v by (auto simp: settled_def Let_def)
  then have ns: "\<forall>x \<in> set ?fs. \<not> unicode_IsSpace x" and vs: "\<forall>x \<in> set ?fs. validRune x"
    by blast+
  have n32: "\<forall>x \<in> set ?fs. x \<noteq> 32"
  proof
    fix x assume "x \<in> set ?fs"
    then have "\<not> unicode_IsSpace x" using ns by blast
    then show "x \<noteq> 32" by (auto simp: unicode_IsSpace_def)
  qed
  have hy: "map hyphenateRune ?fs = ?fs"
  proof (rule map_idI)
    fix x assume x: "x \<in> set ?fs"
    then have "x \<noteq> 32" "x \<noteq> 95" using n32 el by blast+
    then show "hyphenateRune x = x" by (simp add: hyphenateRune_def)
  qed
  have lo: "map (unicode_ToLower tbl) ?fs = as"
    using st
  proof (induction as)
    case Nil
    then show ?case by simp
  next
    case (Cons a as)
    then show ?case by (simp add: settled_def Let_def)
  qed
  have "foldedHeadingKey ff isLetter isNumber tbl (enc as) =
      strings_ToLower tbl (map hyphenate (strings_TrimSpace (enc ?fs)))"
    by (simp only: foldedHeadingKey_steps san)
  also have "\<dots> = strings_ToLower tbl (map hyphenate (enc ?fs))"
    by (simp only: TrimSpace_enc[OF vs] trimRunes_none[OF ns])
  also have "\<dots> = strings_ToLower tbl (enc ?fs)"
    by (simp only: hyphenate_enc hy)
  also have "\<dots> = enc as"
    by (simp only: ToLower_enc[OF vs] lo)
  finally show ?thesis .
qed

lemma keeps_iff:
  "keeps isLetter isNumber r = (isLetter r \<or> isNumber r \<or> r = 32 \<or> r = 95 \<or> r = 45)"
  by (simp add: keeps_def sanitizeRune_def)

lemma hyphenateRune_valid: "validRune k \<Longrightarrow> validRune (hyphenateRune k)"
  by (simp add: hyphenateRune_def validRune_def)

lemma ToLower_hyphen: "unicode_ToLower tbl 45 = 45"
  by (simp add: unicode_ToLower_def)

lemma first_pass:
  assumes ct: "caseTables ff isLetter isNumber tbl"
  obtains as where "foldedHeadingKey ff isLetter isNumber tbl s = enc as"
    and "\<forall>a \<in> set as. validRune a"
    and "\<forall>a \<in> set as. settled ff isLetter isNumber tbl a"
proof -
  let ?keep = "keeps isLetter isNumber"
  let ?lower = "unicode_ToLower tbl"
  let ?ks = "filter ?keep (runes (cases_Fold ff s))"
  let ?ts = "trimRunes ?ks"
  let ?as = "map ?lower (map hyphenateRune ?ts)"
  from ct have t1: "\<forall>r. validRune r \<longrightarrow> ff r \<noteq> [] \<and> (\<forall>k \<in> set (ff r). validRune k)"
    and t2: "\<forall>r. validRune r \<longrightarrow> validRune (tbl r)"
    and t3: "\<not> isLetter RuneError" "\<not> isNumber RuneError"
    and t4: "settled ff isLetter isNumber tbl 45"
    and t5: "\<forall>r. validRune r \<longrightarrow>
           (\<forall>k \<in> set (ff r). isLetter k \<or> isNumber k \<longrightarrow>
              settled ff isLetter isNumber tbl (?lower k))"
    unfolding caseTables_def by blast+
  have each: "validRune k \<and> settled ff isLetter isNumber tbl (?lower (hyphenateRune k))"
    if k: "k \<in> set ?ks" for k
  proof -
    from k have kp: "?keep k" and kr: "k \<in> set (runes (cases_Fold ff s))" by simp_all
    from kr runes_Fold[OF t1, of s]
    have src: "k = RuneError \<or> (\<exists>r. validRune r \<and> k \<in> set (ff r))" by blast
    show ?thesis
    proof (cases "k = 32 \<or> k = 95 \<or> k = 45")
      case True
      then have "hyphenateRune k = 45" by (auto simp: hyphenateRune_def)
      moreover have "validRune k" using True by (auto simp: validRune_def)
      ultimately show ?thesis using t4 by (simp add: ToLower_hyphen)
    next
      case False
      then have ln: "isLetter k \<or> isNumber k" using kp by (simp add: keeps_iff)
      then have "k \<noteq> RuneError" using t3 by auto
      then obtain r where r: "validRune r" "k \<in> set (ff r)" using src by blast
      then have "validRune k" using t1 by blast
      moreover have "hyphenateRune k = k" using False by (simp add: hyphenateRune_def)
      moreover have "settled ff isLetter isNumber tbl (?lower k)" using t5 r ln by blast
      ultimately show ?thesis by simp
    qed
  qed
  have sub: "set ?ts \<subseteq> set ?ks" by (rule set_trimRunes)
  have vk: "\<forall>k \<in> set ?ks. validRune k" using each by blast
  have vt: "\<forall>k \<in> set ?ts. validRune k" using each sub by blast
  have vh: "\<forall>k \<in> set (map hyphenateRune ?ts). validRune k"
    using vt by (simp add: hyphenateRune_valid)
  have "foldedHeadingKey ff isLetter isNumber tbl s =
      strings_ToLower tbl (map hyphenate (strings_TrimSpace (enc ?ks)))"
    by (simp only: foldedHeadingKey_steps sanitizeKey_def Map_sanitize)
  also have "\<dots> = strings_ToLower tbl (enc (map hyphenateRune ?ts))"
    by (simp only: TrimSpace_enc[OF vk] hyphenate_enc)
  also have "\<dots> = enc ?as"
    by (simp only: ToLower_enc[OF vh])
  finally have 1: "foldedHeadingKey ff isLetter isNumber tbl s = enc ?as" .
  have 2: "\<forall>a \<in> set ?as. validRune a"
    using vh t2 by (auto intro: ToLower_valid)
  have 3: "\<forall>a \<in> set ?as. settled ff isLetter isNumber tbl a"
    using each sub by auto
  from 1 2 3 show ?thesis by (rule that)
qed

lemma foldedHeadingKey_fixed:
  assumes ct: "caseTables ff isLetter isNumber tbl"
  shows "foldedHeadingKey ff isLetter isNumber tbl (foldedHeadingKey ff isLetter isNumber tbl s)
    = foldedHeadingKey ff isLetter isNumber tbl s"
proof -
  from ct have t1: "\<forall>r. validRune r \<longrightarrow> ff r \<noteq> [] \<and> (\<forall>k \<in> set (ff r). validRune k)"
    unfolding caseTables_def by blast
  obtain as where a: "foldedHeadingKey ff isLetter isNumber tbl s = enc as"
    "\<forall>a \<in> set as. validRune a" "\<forall>a \<in> set as. settled ff isLetter isNumber tbl a"
    using first_pass[OF ct] by blast
  show ?thesis unfolding a(1) using t1 a(2,3) by (rule settled_fixed)
qed

subsection \<open>The example tables fit together\<close>

lemma exampleLower_lower:
  "exampleLetter k \<or> exampleNumber k \<Longrightarrow>
     unicode_ToLower exampleLower (unicode_ToLower exampleLower k) = unicode_ToLower exampleLower k
     \<and> (exampleLetter (unicode_ToLower exampleLower k) \<or> exampleNumber (unicode_ToLower exampleLower k))
     \<and> \<not> unicode_IsSpace (unicode_ToLower exampleLower k)
     \<and> unicode_ToLower exampleLower k \<noteq> 95"
  by (auto simp: unicode_ToLower_def exampleLower_def exampleLetter_def exampleNumber_def
      unicode_IsSpace_def)

lemma example_settled:
  assumes "exampleLetter k \<or> exampleNumber k"
  shows "settled exampleFold exampleLetter exampleNumber exampleLower
     (unicode_ToLower exampleLower k)"
  using exampleLower_lower[OF assms]
  by (auto simp: settled_def keeps_iff exampleFold_def)

lemma example_tables: "caseTables exampleFold exampleLetter exampleNumber exampleLower"
proof -
  have v: "\<forall>r. validRune r \<longrightarrow> validRune (exampleLower r)"
    by (simp add: exampleLower_def validRune_def)
  have 1: "\<forall>r. validRune r \<longrightarrow> exampleFold r \<noteq> [] \<and> (\<forall>k \<in> set (exampleFold r). validRune k)"
    using v by (simp add: exampleFold_def ToLower_valid)
  have 3: "\<not> exampleLetter RuneError \<and> \<not> exampleNumber RuneError"
    by (simp add: exampleLetter_def exampleNumber_def RuneError_def)
  have 4: "settled exampleFold exampleLetter exampleNumber exampleLower 45"
    by (simp add: settled_def keeps_iff exampleFold_def unicode_ToLower_def unicode_IsSpace_def)
  have 5: "\<forall>r. validRune r \<longrightarrow>
           (\<forall>k \<in> set (exampleFold r). exampleLetter k \<or> exampleNumber k \<longrightarrow>
              settled exampleFold exampleLetter exampleNumber exampleLower
                (unicode_ToLower exampleLower k))"
    using example_settled by blast
  from 1 v 3 4 5 show ?thesis unfolding caseTables_def by blast
qed

section \<open>Evaluation on concrete input\<close>

text \<open>
  The rewrite rules that run the model on a literal string: the library calls unfold to
  their byte-level readings above, and the loop body to its five cases.
\<close>

lemmas eval_simps =
  strings_Split_def strings_SplitN_def strings_HasPrefix_def strings_TrimPrefix_def
  asciiSpace_def ToLower_Cons_ascii ToLower_Nil lowerByte_def unicode_ToLower_def
  char_of_def bit_Suc_0_iff ReplaceAll_single trimSpaces_def keepByte_def keepRune_def
  hyphenate_def headingKey_bytes sectionPrefix_def withPrefix_def processed_def bulletItem_def
  definitionKey_def strings_Map_keepRune

lemmas run_simps =
  parseMarkdown_def loopBody_cases Let_def flushEntry_flushed flushed_def initial_def

lemmas fold_simps = exampleFold_def exampleLower_def exampleLetter_def exampleNumber_def
  unicode_ToLower_def EncodeRune_def char_of_def bit_Suc_0_iff Let_def RuneError_def
  sanitizeKey_def sanitizeRune_def strings_Map_def strings_ToLower_def hyphenate_def
  asciiSpace_def unicode_IsSpace_def TrimFunc_def TrimRightFunc_def DecodeLastRuneInString_def
  RuneStart_def keepRune_def keepByte_def strings_HasPrefix_def referenceSanitizer_def

section \<open>The claims\<close>

subsection \<open>C1: every key written is sanitized and carries the active prefix\<close>

text \<open>
  Claim C1 says that every key written to the output mapping consists of case-folded
  letters, digits and hyphens only, and starts with the active section prefix and a
  hyphen. The code computes a filtered prefix on lines 88-93 and then overwrites it, on
  line 94, with a prefix made from the unfiltered line. So punctuation of a second-level
  heading reaches the keys: the input below writes the key \<open>a!-b\<close>, and \<open>!\<close> is
  neither a byte the filter keeps nor a byte of a finished key.
\<close>

theorem prefix_not_sanitized:
  "parseMarkdown tbl ''## A!\<newline>### B\<newline>x'' = Inr [''a!-b'' \<mapsto> ''x'']
   \<and> \<not> keyByte CHR ''!'' \<and> \<not> keepByte CHR ''!''"
  by (simp add: run_simps eval_simps keyByte_def)

subsection \<open>C2: a line that is only a colon\<close>

text \<open>
  Claim C2 says that a line that is exactly \<open>:\<close> writes no entry and leaves the mapping
  as it was. As amended: processing a line that starts with a colon never panics, and its
  split at the first colon always has two parts, so the line is never ignored; it
  writes one entry, from the key of the previous line (with the active prefix) to the
  trimmed text after the colon, and changes nothing else but the remembered previous
  line. For the line \<open>:\<close> the value written is the empty string.
\<close>

theorem colon_line_writes:
  "(strings_TrimSpace raw = CHR '':'' # rest \<longrightarrow>
      length (strings_SplitN (strings_TrimSpace raw) '':'' 2) = 2
      \<and> loopBody tbl st raw =
          Inr (st\<lparr>data := (data st)(withPrefix (currentPrefix st)
                                        (definitionKey tbl (previousLine st))
                                      \<mapsto> strings_TrimSpace rest),
                 previousLine := CHR '':'' # rest\<rparr>))
   \<and> loopBody tbl st '':'' =
         Inr (st\<lparr>data := (data st)(withPrefix (currentPrefix st)
                                       (definitionKey tbl (previousLine st)) \<mapsto> []),
                previousLine := '':''\<rparr>)"
proof -
  have colon: "loopBody tbl st raw =
          Inr (st\<lparr>data := (data st)(withPrefix (currentPrefix st)
                                        (definitionKey tbl (previousLine st))
                                      \<mapsto> strings_TrimSpace rest),
                 previousLine := CHR '':'' # rest\<rparr>)"
    if "strings_TrimSpace raw = CHR '':'' # rest" for raw rest
    using that by (simp add: loopBody_cases Let_def strings_HasPrefix_def)
  have "strings_TrimSpace '':'' = '':''"
    by (simp add: asciiSpace_def)
  from colon[OF this] show ?thesis
    by (auto simp: colon SplitN_colon)
qed

text \<open>
  A witness for C2: the definition list item of the specification's own example, under
  the prefix \<open>intro\<close> and after the line \<open>Label Name\<close>.
\<close>

theorem colon_line_writes_witness:
  "strings_TrimSpace '' : some value '' = CHR '':'' # '' some value''
   \<and> loopBody id (initial\<lparr>currentPrefix := ''intro'', previousLine := ''Label Name''\<rparr>)
         '' : some value ''
       = Inr (initial\<lparr>data := [''intro-label-name'' \<mapsto> ''some value''],
                      currentPrefix := ''intro'', previousLine := '': some value''\<rparr>)"
  using colon_line_writes[of "'' : some value ''" "'' some value''" id
      "initial\<lparr>currentPrefix := ''intro'', previousLine := ''Label Name''\<rparr>"]
  by (simp add: initial_def eval_simps)

text \<open>
  The counterexample to C2 as stated: from the initial state, the line \<open>:\<close> maps the
  empty key to the empty string, so the mapping is not what it was.
\<close>

theorem colon_line_counterexample:
  "map_sum id data (loopBody id initial '':'') = Inr ((data initial)([] \<mapsto> []))
   \<and> (data initial)([] \<mapsto> []) \<noteq> data initial"
proof -
  have "((data initial)([] \<mapsto> [])) [] \<noteq> data initial []"
    by (simp add: initial_def)
  then have "(data initial)([] \<mapsto> []) \<noteq> data initial"
    by metis
  then show ?thesis
    by (simp add: run_simps eval_simps)
qed

subsection \<open>C3: the sanitizer against the four-step reference pipeline\<close>





subsection \<open>C4: no emphasis delimiter reaches the placeholder filler\<close>

text \<open>
  Claim C4 says that no value handed to the filler's replacement call contains an
  asterisk. As amended: in the version of \<^verbatim>\<open>replaceMustacheTags\<close> that builds the
  replacement map from \<^verbatim>\<open>cleanValue\<close> (src/unnamed/part_000, lines 125-130; the same
  expression fills the text of lines 532-537) no value handed to the filler contains an
  asterisk, single or doubled, and the stripping happens before the call; the loop of
  markdowntoword.go (lines 126-129) hands every value over as it is.
\<close>

theorem replaceMap_versions:
  "(replaceMapClean d key = Some v \<longrightarrow>
      CHR ''*'' \<notin> set v \<and> strings_Index v ''*'' = None \<and> strings_Index v ''**'' = None)
   \<and> replaceMap d = d"
proof -
  have "replaceMap d = d"
    by (rule ext) (simp add: replaceMap_def split: option.splits)
  moreover have "CHR ''*'' \<notin> set v \<and> strings_Index v ''*'' = None \<and> strings_Index v ''**'' = None"
    if "replaceMapClean d key = Some v"
    using replaceMapClean_no_asterisk[OF that] by (simp add: Index_absent)
  ultimately show ?thesis by blast
qed

text \<open>
  A witness for C4: a value with bold and italic markers, through either loop.
\<close>

theorem replaceMap_versions_witness:
  "replaceMapClean [''a'' \<mapsto> ''**x** and *y*''] ''a'' = Some ''x and y''
   \<and> replaceMap [''a'' \<mapsto> ''**x** and *y*''] ''a'' = Some ''**x** and *y*''"
  using replaceMap_versions[of "[''a'' \<mapsto> ''**x** and *y*'']" "''a''" "''x and y''"]
  by (simp add: replaceMapClean_def ReplaceAll_delete strings_ReplaceAll_def strings_Replace_def
      strings_HasPrefix_def)

text \<open>
  The counterexample to C4 as stated: an entry whose text is in bold reaches the filler
  of markdowntoword.go with its four asterisks.
\<close>

theorem replaceMap_counterexample:
  "parseMarkdown id ''### A\<newline>**x**'' = Inr [''a'' \<mapsto> ''**x**'']
   \<and> replaceMap [''a'' \<mapsto> ''**x**''] ''a'' = Some ''**x**''
   \<and> strings_Index ''**x**'' ''**'' = Some 0"
  by (simp add: run_simps eval_simps replaceMap_def)

subsection \<open>C5: the sanitizer is idempotent\<close>

text \<open>
  Claim C5: the key sanitizer, as applied to the text of a third-level heading, is
  idempotent: applied to a key it has made, it returns that key. For the inline filter
  of markdowntoword.go this holds of every string and every lower-case table: the key
  consists of hyphens, lower-case ASCII letters and digits. For the variant with
  \<^verbatim>\<open>sanitizeKey\<close> it holds of every string, valid UTF-8 or not, whenever the folding,
  the two predicates and the lower-case table fit together as \<^const>\<open>caseTables\<close> says.
\<close>

theorem sanitizer_idempotent:
  "headingKey tbl (headingKey tbl s) = headingKey tbl s
   \<and> (caseTables ff isLetter isNumber tbl \<longrightarrow>
        foldedHeadingKey ff isLetter isNumber tbl (foldedHeadingKey ff isLetter isNumber tbl s)
        = foldedHeadingKey ff isLetter isNumber tbl s)"
proof
  show "headingKey tbl (headingKey tbl s) = headingKey tbl s"
    by (rule headingKey_fixed) (rule headingKey_keyBytes)
  show "caseTables ff isLetter isNumber tbl \<longrightarrow>
        foldedHeadingKey ff isLetter isNumber tbl (foldedHeadingKey ff isLetter isNumber tbl s)
        = foldedHeadingKey ff isLetter isNumber tbl s"
    by (simp add: foldedHeadingKey_fixed)
qed

text \<open>
  A witness for C5: the example tables fit together, and a heading with two accented
  letters, an underscore and punctuation gives a key that either version leaves as it is.
\<close>

theorem sanitizer_idempotent_witness:
  "caseTables exampleFold exampleLetter exampleNumber exampleLower
   \<and> headingKey exampleLower
      [CHR '' '', CHR ''C'', CHR ''a'', CHR ''f'', CHR 0xC3, CHR 0xA9, CHR '' '', CHR 0xC3,
       CHR 0x9C, CHR ''b'', CHR ''e'', CHR ''r'', CHR ''_'', CHR ''1'', CHR ''2'', CHR ''!'']
     = ''caf-ber-12''
   \<and> headingKey exampleLower ''caf-ber-12'' = ''caf-ber-12''
   \<and> foldedHeadingKey exampleFold exampleLetter exampleNumber exampleLower
      [CHR '' '', CHR ''C'', CHR ''a'', CHR ''f'', CHR 0xC3, CHR 0xA9, CHR '' '', CHR 0xC3,
       CHR 0x9C, CHR ''b'', CHR ''e'', CHR ''r'', CHR ''_'', CHR ''1'', CHR ''2'', CHR ''!'']
     = [CHR ''c'', CHR ''a'', CHR ''f'', CHR 0xC3, CHR 0xA9, CHR ''-'', CHR 0xC3, CHR 0xBC,
        CHR ''b'', CHR ''e'', CHR ''r'', CHR ''-'', CHR ''1'', CHR ''2'']
   \<and> foldedHeadingKey exampleFold exampleLetter exampleNumber exampleLower
      [CHR ''c'', CHR ''a'', CHR ''f'', CHR 0xC3, CHR 0xA9, CHR ''-'', CHR 0xC3, CHR 0xBC,
        CHR ''b'', CHR ''e'', CHR ''r'', CHR ''-'', CHR ''1'', CHR ''2'']
     = [CHR ''c'', CHR ''a'', CHR ''f'', CHR 0xC3, CHR 0xA9, CHR ''-'', CHR 0xC3, CHR 0xBC,
        CHR ''b'', CHR ''e'', CHR ''r'', CHR ''-'', CHR ''1'', CHR ''2'']"
proof -
  let ?s = "[CHR '' '', CHR ''C'', CHR ''a'', CHR ''f'', CHR 0xC3, CHR 0xA9, CHR '' '', CHR 0xC3,
       CHR 0x9C, CHR ''b'', CHR ''e'', CHR ''r'', CHR ''_'', CHR ''1'', CHR ''2'', CHR ''!'']"
  have h: "headingKey exampleLower ?s = ''caf-ber-12''"
    by (simp add: headingKey_steps fold_simps)
  have f: "foldedHeadingKey exampleFold exampleLetter exampleNumber exampleLower ?s
     = [CHR ''c'', CHR ''a'', CHR ''f'', CHR 0xC3, CHR 0xA9, CHR ''-'', CHR 0xC3, CHR 0xBC,
        CHR ''b'', CHR ''e'', CHR ''r'', CHR ''-'', CHR ''1'', CHR ''2'']"
    by (simp add: foldedHeadingKey_steps fold_simps)
  show ?thesis
    using sanitizer_idempotent[of exampleLower ?s exampleFold exampleLetter exampleNumber]
      example_tables
    unfolding h f by simp
qed

subsection \<open>C6: totality\<close>

text \<open>
  Claim C6: for every input the extractor returns a mapping and raises nothing; the
  empty input gives the empty mapping, and so does an input none of whose trimmed
  lines starts with \<open>##\<close> (hence none with \<open>###\<close>) or with a colon. In the model a
  panic is the result \<^const>\<open>Inl\<close>, and the loops are total functions.
\<close>

theorem parseMarkdown_total:
  "(\<exists>m. parseMarkdown tbl markdown = Inr m)
   \<and> parseMarkdown tbl [] = Inr Map.empty
   \<and> ((\<forall>raw \<in> set (strings_Split markdown ''\<newline>'').
          \<not> strings_HasPrefix (strings_TrimSpace raw) ''##''
          \<and> \<not> strings_HasPrefix (strings_TrimSpace raw) '':'')
        \<longrightarrow> parseMarkdown tbl markdown = Inr Map.empty)"
  using parse_returns[of tbl markdown] parse_empty[of tbl] parse_plain[of markdown tbl]
  by blast

text \<open>A witness for C6: two lines of plain text, one of them with a single \<open>#\<close>.\<close>

theorem parseMarkdown_total_witness:
  "strings_Split ''just text\<newline> # one hash'' ''\<newline>'' = [''just text'', '' # one hash'']
   \<and> parseMarkdown id ''just text\<newline> # one hash'' = Inr Map.empty"
  using parseMarkdown_total[of id "''just text\<newline> # one hash''"]
  by (simp add: eval_simps)

subsection \<open>C7: a section heading, an entry heading and one line of text\<close>

text \<open>
  Claim C7: the input \<open>## Section One\<close>, \<open>### Field A\<close>, \<open>Hello\<close> (each line ended by
  a newline) gives the mapping with the key \<open>section-one-field-a\<close> and the value
  \<open>Hello\<close>: the prefix is prepended, and the entry open at the end of the input is
  flushed with its value trimmed. The mapping holds nothing else.
\<close>

theorem section_entry_example:
  "parseMarkdown tbl ''## Section One\<newline>### Field A\<newline>Hello\<newline>''
     = Inr [''section-one-field-a'' \<mapsto> ''Hello'']"
  by (simp add: run_simps eval_simps)

subsection \<open>C8: two entry headings in a row\<close>

text \<open>
  Claim C8: the input \<open>### First\<close>, \<open>Value1\<close>, \<open>### Second\<close>, \<open>Value2\<close> gives exactly
  the mapping of \<open>first\<close> to \<open>Value1\<close> and \<open>second\<close> to \<open>Value2\<close>, and the first value
  is written before the current key is reassigned: after the first two lines the key
  \<open>first\<close> is open and nothing is written; the third line writes \<open>Value1\<close> under
  \<open>first\<close> (not under \<open>second\<close>) and leaves \<open>second\<close> as the open key.
\<close>

theorem two_entries_example:
  "parseMarkdown tbl ''### First\<newline>Value1\<newline>### Second\<newline>Value2\<newline>''
     = Inr [''first'' \<mapsto> ''Value1'', ''second'' \<mapsto> ''Value2'']
   \<and> scanLines tbl [''### First'', ''Value1''] initial
     = Inr (initial\<lparr>currentKey := ''first'', currentValue := ''Value1\<newline>'',
                    previousLine := ''Value1''\<rparr>)
   \<and> loopBody tbl (initial\<lparr>currentKey := ''first'', currentValue := ''Value1\<newline>'',
                          previousLine := ''Value1''\<rparr>) ''### Second''
     = Inr (initial\<lparr>data := [''first'' \<mapsto> ''Value1''], currentKey := ''second'',
                    currentValue := [], previousLine := ''### Second''\<rparr>)"
  by (simp add: run_simps eval_simps)

subsection \<open>C9: bullets\<close>

text \<open>
  Claim C9: \<^verbatim>\<open>processValue\<close> splits the value at newlines; a line that starts with
  \<open>-\<close> or \<open>+\<close> gets the bullet glyph in place of that first byte and keeps the rest;
  every other line passes unchanged; the lines are joined with newlines again. The value
  \<open>- first\<close>, \<open>+ second\<close> (each ended by a newline) becomes the same two lines with a
  bullet each. The glyph is \<open>U+2022\<close>, the bytes \<open>E2 80 A2\<close> in UTF-8, for both
  markers. The function never panics.
\<close>

theorem processValue_bullets:
  "processValue v =
     Inr (strings_Join
            (map (\<lambda>item. case item of
                             [] \<Rightarrow> []
                           | c # cs \<Rightarrow>
                               if c = CHR ''-'' \<or> c = CHR ''+''
                               then [CHR 0xE2, CHR 0x80, CHR 0xA2] @ cs else item)
                 (strings_Split v ''\<newline>''))
            ''\<newline>'')
   \<and> processValue ''- first\<newline>+ second\<newline>''
       = Inr ([CHR 0xE2, CHR 0x80, CHR 0xA2] @ '' first\<newline>''
              @ [CHR 0xE2, CHR 0x80, CHR 0xA2] @ '' second\<newline>'')
   \<and> EncodeRune 0x2022 = [CHR 0xE2, CHR 0x80, CHR 0xA2]"
proof -
  have "bulletItem = (\<lambda>item. case item of
                             [] \<Rightarrow> []
                           | c # cs \<Rightarrow>
                               if c = CHR ''-'' \<or> c = CHR ''+''
                               then [CHR 0xE2, CHR 0x80, CHR 0xA2] @ cs else item)"
    by (rule ext) (simp add: bulletItem_def bullet_def split: list.splits)
  then have "processValue v =
     Inr (strings_Join
            (map (\<lambda>item. case item of
                             [] \<Rightarrow> []
                           | c # cs \<Rightarrow>
                               if c = CHR ''-'' \<or> c = CHR ''+''
                               then [CHR 0xE2, CHR 0x80, CHR 0xA2] @ cs else item)
                 (strings_Split v ''\<newline>''))
            ''\<newline>'')"
    by (simp add: processValue_processed processed_def)
  moreover have "processValue ''- first\<newline>+ second\<newline>''
       = Inr ([CHR 0xE2, CHR 0x80, CHR 0xA2] @ '' first\<newline>''
              @ [CHR 0xE2, CHR 0x80, CHR 0xA2] @ '' second\<newline>'')"
    by (simp add: processValue_processed eval_simps bullet_def)
  moreover have "EncodeRune 0x2022 = [CHR 0xE2, CHR 0x80, CHR 0xA2]"
    by (simp add: EncodeRune_def char_of_def bit_Suc_0_iff)
  ultimately show ?thesis by simp
qed

text \<open>
  A witness for C9: a marker at the start of a line is replaced, one inside a line is not.
\<close>

theorem processValue_bullets_witness:
  "processValue ''+ a\<newline>b - c'' = Inr ([CHR 0xE2, CHR 0x80, CHR 0xA2] @ '' a\<newline>b - c'')"
  using processValue_bullets[of "''+ a\<newline>b - c''"]
  by (simp add: eval_simps)

subsection \<open>C10: four or more hashes\<close>

text \<open>
  Claim C10: a trimmed line that starts with four or more \<open>#\<close> takes the branch of the
  third-level heading; the first three are stripped as the marker and the others are
  deleted by the filter, so the key is that of the text after the hashes, with the
  active prefix. The line \<open>#### Deep\<close> opens the entry \<open>deep\<close>.
\<close>

theorem four_hashes_entry_heading:
  "(strings_TrimSpace raw = ''####'' @ rest \<longrightarrow>
      loopBody tbl st raw = map_sum id (\<lambda>s. s\<lparr>previousLine := ''####'' @ rest\<rparr>)
                              (thirdLevel tbl st (''####'' @ rest))
      \<and> loopBody tbl st raw =
          Inr ((flushed st)\<lparr>currentKey := withPrefix (currentPrefix st) (headingKey tbl rest),
                            currentValue := [], previousLine := ''####'' @ rest\<rparr>))
   \<and> headingKey tbl (replicate n CHR ''#'' @ rest) = headingKey tbl rest
   \<and> loopBody tbl initial ''#### Deep''
       = Inr (initial\<lparr>currentKey := ''deep'', previousLine := ''#### Deep''\<rparr>)"
proof -
  have hashes: "headingKey tbl (replicate n CHR ''#'' @ rest) = headingKey tbl rest"
    by (induction n) (simp_all add: headingKey_hash)
  have step: "loopBody tbl st raw =
          Inr ((flushed st)\<lparr>currentKey := withPrefix (currentPrefix st) (headingKey tbl rest),
                            currentValue := [], previousLine := ''####'' @ rest\<rparr>)"
    if "strings_TrimSpace raw = ''####'' @ rest"
    using that
    by (simp add: loopBody_cases Let_def strings_HasPrefix_def strings_TrimPrefix_def
        headingKey_hash)
  have third: "loopBody tbl st raw = map_sum id (\<lambda>s. s\<lparr>previousLine := ''####'' @ rest\<rparr>)
                              (thirdLevel tbl st (''####'' @ rest))"
    if "strings_TrimSpace raw = ''####'' @ rest"
    using that
    by (simp add: loopBody_def Let_def strings_HasPrefix_def thirdLevel_flushed)
  have "loopBody tbl initial ''#### Deep''
       = Inr (initial\<lparr>currentKey := ''deep'', previousLine := ''#### Deep''\<rparr>)"
    by (simp add: run_simps eval_simps)
  with hashes step third show ?thesis by blast
qed

text \<open>
  A witness for C10: five hashes, surrounding blanks, punctuation and an active prefix.
\<close>

theorem four_hashes_entry_heading_witness:
  "strings_TrimSpace ''  ##### Deep_er, x  '' = ''####'' @ ''# Deep_er, x''
   \<and> loopBody id (initial\<lparr>currentPrefix := ''intro''\<rparr>) ''  ##### Deep_er, x  ''
       = Inr (initial\<lparr>currentPrefix := ''intro'', currentKey := ''intro-deep-er-x'',
                      previousLine := ''##### Deep_er, x''\<rparr>)"
  using four_hashes_entry_heading[of "''  ##### Deep_er, x  ''" "''# Deep_er, x''" id
      "initial\<lparr>currentPrefix := ''intro''\<rparr>" 0]
  by (simp add: run_simps thirdLevel_flushed eval_simps)

end
